theory Spec2Isabelle
  imports Complex_Main "HOL-Library.Log_Nat"
begin

section \<open>Numeric helpers and intervals\<close>

text \<open>
  The library stores every size, stride, subscript and offset in a signed 64-bit integer.
  Signed overflow is undefined in C++, so the embedding uses unbounded \<open>int\<close>: it agrees
  with the code on every execution whose intermediate values fit into 64 bits, which is the
  case for every array that fits into memory. A \<open>Params<T>\<close> span (size and pointer) is a
  list; \<open>s()\<close> is \<open>length\<close>.
\<close>

text \<open>
  Modelled from the spec: the scalar \<open>modulo\<close> of computoc/math.h, which is not among the
  sources. The spec calls it the Euclidean modulo with a non-negative result; the code only
  calls it with a positive modulus (a dimension of a non-empty array, or a rank).
\<close>

definition modulo :: "int \<Rightarrow> int \<Rightarrow> int" where
  "modulo a n = a mod n"

text \<open>
  Modelled from the spec: the \<open>Interval\<close> struct of computoc/utils.h with its operations
  \<open>forward\<close> and \<open>modulo\<close>, which are not among the sources. \<open>forward\<close> turns a negative
  step around (\<open>{stop, start, -step}\<close>) and leaves every other interval as it is;
  \<open>modulo\<close> wraps \<open>start\<close> and \<open>stop\<close> and keeps \<open>step\<close>.
\<close>

record Interval =
  start :: int
  stop :: int
  step :: int

definition forward :: "Interval \<Rightarrow> Interval" where
  "forward i = (if step i < 0 then \<lparr>start = stop i, stop = start i, step = - step i\<rparr> else i)"

definition modulo_interval :: "Interval \<Rightarrow> int \<Rightarrow> Interval" where
  "modulo_interval i n = \<lparr>start = modulo (start i) n, stop = modulo (stop i) n, step = step i\<rparr>"

section \<open>Double precision\<close>

text \<open>
  \<open>compute_dims\<close> computes an extent in double precision. A double is modelled as the real
  number it denotes, and an operation on doubles as the exact operation followed by
  \<open>round_double\<close>: the rounding of IEEE 754 binary64 to the nearest number with a
  significand of 53 bits, a tie going to the even significand. The conversion of an
  \<open>int64\<close> to \<open>double\<close> rounds in the same way. The exponent range is not bounded in the
  model: the numbers that \<open>compute_dims\<close> rounds are 0 or have a magnitude between \<open>2^-63\<close> and
  \<open>2^64\<close>, far inside the range of the normal doubles.

  \<open>exponent2 x\<close> is the binary exponent \<open>e\<close> of a positive \<open>x\<close>, \<open>2^e \<le> x < 2^(e+1)\<close>, read off
  the bit length of the integer part of \<open>x\<close> or of \<open>1 / x\<close>; \<open>round_even\<close> rounds to the nearest
  integer, a tie to the even one.
\<close>

definition exponent2 :: "real \<Rightarrow> int" where
  "exponent2 x = (if 1 \<le> x then bitlen \<lfloor>x\<rfloor> - 1 else - bitlen (\<lceil>1 / x\<rceil> - 1))"

definition round_even :: "real \<Rightarrow> int" where
  "round_even y =
     (let f = \<lfloor>y\<rfloor>
      in if y - of_int f < 1 / 2 then f
         else if 1 / 2 < y - of_int f then f + 1
         else if even f then f else f + 1)"

definition round_double :: "real \<Rightarrow> real" where
  "round_double x =
     (if x = 0 then 0
      else let u = 2 powi (exponent2 \<bar>x\<bar> - 52)
           in sgn x * (u * of_int (round_even (\<bar>x\<bar> / u))))"

section \<open>Layout arithmetic\<close>

text \<open>\<open>numel\<close>: the loop multiplies the dimensions and returns 0 at the first one that is not positive.\<close>

fun numel_loop :: "int list \<Rightarrow> int \<Rightarrow> int" where
  "numel_loop [] res = res"
| "numel_loop (d # ds) res = (if d \<le> 0 then 0 else numel_loop ds (res * d))"

definition numel :: "int list \<Rightarrow> int" where
  "numel dims = (if dims = [] then 0 else numel_loop dims 1)"

text \<open>
  The stride loops \<open>for (i = hi; i >= lo; --i) strides[i] = strides[i + 1] * dims[i + 1]\<close>:
  \<open>strides_down dims lo k strides\<close> runs the \<open>k\<close> iterations \<open>i = lo + k - 1, ..., lo\<close>.
\<close>

fun strides_down :: "int list \<Rightarrow> nat \<Rightarrow> nat \<Rightarrow> int list \<Rightarrow> int list" where
  "strides_down dims lo 0 strides = strides"
| "strides_down dims lo (Suc k) strides =
     strides_down dims lo k (strides[lo + k := strides ! (lo + k + 1) * dims ! (lo + k + 1)])"

text \<open>
  \<open>compute_strides(dims, strides)\<close> writes into the caller's \<open>strides\<close>; the model returns
  the written span.
\<close>

definition compute_strides :: "int list \<Rightarrow> int list \<Rightarrow> int list" where
  "compute_strides dims strides =
     (let num_strides = (if length dims > length strides then length strides else length dims)
      in if num_strides \<le> 0 then strides
         else strides_down dims 0 (num_strides - 1) (strides[num_strides - 1 := 1]))"

text \<open>
  \<open>compute_strides(previous_dims, previous_strides, intervals, strides)\<close>. Its first loop
  runs over all intervals without a bound check: with more intervals than strides it reads
  and writes out of range, which is undefined behaviour and \<open>None\<close> here.
\<close>

definition compute_strides_intervals ::
  "int list \<Rightarrow> int list \<Rightarrow> Interval list \<Rightarrow> int list \<Rightarrow> int list option" where
  "compute_strides_intervals previous_dims previous_strides intervals strides =
     (let nstrides = (if length previous_strides > length strides then length strides
                      else length previous_strides)
      in if nstrides \<le> 0 then Some strides
         else if length intervals > nstrides then None
         else
           let s1 = fold (\<lambda>i s. s[i := previous_strides ! i * step (forward (intervals ! i))])
                      [0..<length intervals] strides
           in if length intervals < length previous_dims \<and> nstrides \<ge> length previous_dims
              then Some (strides_down previous_dims (length intervals)
                           (length previous_dims - 1 - length intervals)
                           (s1[length previous_dims - 1 := 1]))
              else Some s1)"

text \<open>
  \<open>compute_dims\<close>: the loop over the specified axes returns 0 at the first interval that is
  degenerate after wrapping and canonicalising. The extent is
  \<open>ceil((stop - start + 1.0) / step)\<close> in double precision: the difference is taken in
  \<open>int64\<close> and converted to \<open>double\<close>, 1.0 is added, the step is converted to \<open>double\<close> and
  the quotient is taken, each of the four steps rounding its result; \<open>ceil\<close> and the
  conversion of its integral result back to \<open>int64\<close> are exact. The result is the returned
  number of dimensions and the written span.
\<close>

fun compute_dims_loop :: "int list \<Rightarrow> Interval list \<Rightarrow> nat \<Rightarrow> nat \<Rightarrow> int list \<Rightarrow> int list option" where
  "compute_dims_loop previous_dims intervals i 0 dims = Some dims"
| "compute_dims_loop previous_dims intervals i (Suc k) dims =
     (let interval = forward (modulo_interval (intervals ! i) (previous_dims ! i))
      in if start interval > stop interval \<or> step interval \<le> 0 then None
         else compute_dims_loop previous_dims intervals (Suc i) k
                (dims[i := \<lceil>round_double
                              (round_double
                                 (round_double (real_of_int (stop interval - start interval)) + 1) /
                               round_double (real_of_int (step interval)))\<rceil>]))"

definition compute_dims :: "int list \<Rightarrow> Interval list \<Rightarrow> int list \<Rightarrow> nat \<times> int list" where
  "compute_dims previous_dims intervals dims =
     (let ndims = (if length previous_dims > length dims then length dims else length previous_dims)
      in if ndims \<le> 0 then (0, dims)
         else
           let num_computed_dims = (if ndims > length intervals then length intervals else ndims)
           in case compute_dims_loop previous_dims intervals 0 num_computed_dims dims of
                None \<Rightarrow> (0, dims)
              | Some d1 \<Rightarrow>
                  (ndims, fold (\<lambda>i d. d[i := previous_dims ! i]) [num_computed_dims..<ndims] d1))"

definition compute_offset :: "int list \<Rightarrow> int \<Rightarrow> int list \<Rightarrow> Interval list \<Rightarrow> int" where
  "compute_offset previous_dims previous_offset previous_strides intervals =
     (if previous_dims = [] \<or> previous_strides = [] \<or> intervals = [] then previous_offset
      else
        let n0 = (if length previous_dims > length previous_strides then length previous_strides
                  else length previous_dims);
            num_computations = (if n0 > length intervals then length intervals else n0)
        in fold (\<lambda>i offset. offset + previous_strides ! i *
                    start (forward (modulo_interval (intervals ! i) (previous_dims ! i))))
             [0..<num_computations] previous_offset)"

text \<open>
  \<open>subs2ind\<close>: \<open>num_ignored_subs\<close> is \<open>strides.s() - num_used_subs\<close>, set to 0 when
  negative, which is the truncating subtraction of \<open>nat\<close>.
\<close>

definition subs2ind :: "int \<Rightarrow> int list \<Rightarrow> int list \<Rightarrow> int list \<Rightarrow> int" where
  "subs2ind offset strides dims subs =
     (if strides = [] \<or> dims = [] \<or> subs = [] then offset
      else
        let n0 = (if length strides > length dims then length dims else length strides);
            num_used_subs = (if n0 > length subs then length subs else n0);
            num_ignored_subs = length strides - num_used_subs
        in fold (\<lambda>i ind. ind + strides ! i * modulo (subs ! (i - num_ignored_subs)) (dims ! i))
             [num_ignored_subs..<length strides] offset)"

section \<open>The layout descriptor\<close>

text \<open>
  \<open>Array_header\<close>: \<open>dims_\<close> and \<open>strides_\<close> are spans into \<open>buff_\<close>; \<open>buff_usable\<close> says
  whether \<open>buff_\<close> holds storage, which is what \<open>empty()\<close> tests. Allocation of the small
  metadata buffer is taken to succeed.
\<close>

record Array_header =
  hdr_dims :: "int list"
  hdr_strides :: "int list"
  hdr_usable :: bool
  hdr_count :: int
  hdr_offset :: int
  hdr_is_subarray :: bool

definition header0 :: Array_header where
  "header0 = \<lparr>hdr_dims = [], hdr_strides = [], hdr_usable = False, hdr_count = 0, hdr_offset = 0,
              hdr_is_subarray = False\<rparr>"

definition hdr_empty :: "Array_header \<Rightarrow> bool" where
  "hdr_empty h = (\<not> hdr_usable h)"

text \<open>The constructor from a shape. The fresh metadata buffer is modelled as zeros.\<close>

definition Array_header_dims :: "int list \<Rightarrow> Array_header" where
  "Array_header_dims dims =
     (let c = numel dims
      in if c \<le> 0 then header0\<lparr>hdr_count := c\<rparr>
         else \<lparr>hdr_dims = dims,
               hdr_strides = compute_strides dims (replicate (length dims) 0),
               hdr_usable = True, hdr_count = c, hdr_offset = 0, hdr_is_subarray = False\<rparr>)"

text \<open>The constructor from a parent layout and intervals (slicing).\<close>

definition Array_header_slice ::
  "int list \<Rightarrow> int list \<Rightarrow> int \<Rightarrow> Interval list \<Rightarrow> Array_header option" where
  "Array_header_slice previous_dims previous_strides previous_offset intervals =
     (if numel previous_dims \<le> 0 then Some (header0\<lparr>hdr_is_subarray := True\<rparr>)
      else
        case compute_dims previous_dims intervals (replicate (length previous_dims) 0) of
          (n, dims) \<Rightarrow>
            if n \<le> 0 then Some (header0\<lparr>hdr_is_subarray := True\<rparr>)
            else
              (case compute_strides_intervals previous_dims previous_strides intervals
                      (replicate (length previous_dims) 0) of
                 None \<Rightarrow> None
               | Some strides \<Rightarrow>
                   Some \<lparr>hdr_dims = dims, hdr_strides = strides, hdr_usable = True,
                         hdr_count = numel dims,
                         hdr_offset = compute_offset previous_dims previous_offset previous_strides intervals,
                         hdr_is_subarray = True\<rparr>))"

text \<open>The constructor from a parent shape and an omitted axis (reduction).\<close>

definition Array_header_omit :: "int list \<Rightarrow> int \<Rightarrow> Array_header" where
  "Array_header_omit previous_dims omitted_axis =
     (if numel previous_dims \<le> 0 then header0
      else
        let axis = nat (modulo omitted_axis (int (length previous_dims)));
            ndims = (if length previous_dims > 1 then length previous_dims - 1 else 1);
            dims = (if length previous_dims > 1
                    then take axis previous_dims @ drop (axis + 1) previous_dims
                    else [1])
        in \<lparr>hdr_dims = dims, hdr_strides = compute_strides dims (replicate ndims 0),
             hdr_usable = True, hdr_count = numel dims, hdr_offset = 0, hdr_is_subarray = False\<rparr>)"

text \<open>
  The constructor from a parent shape and a new axis order (transposition). The loop reads
  \<open>new_order[i]\<close> for every axis of the parent and indexes the parent's dimensions with
  \<open>modulo(new_order[i], previous_dims[i])\<close>; either read can be out of range, which is
  undefined behaviour and \<open>None\<close> here.
\<close>

fun permute_dims_loop :: "int list \<Rightarrow> int list \<Rightarrow> nat \<Rightarrow> nat \<Rightarrow> int list \<Rightarrow> int list option" where
  "permute_dims_loop previous_dims new_order i 0 dims = Some dims"
| "permute_dims_loop previous_dims new_order i (Suc k) dims =
     (if i \<ge> length new_order then None
      else
        let j = nat (modulo (new_order ! i) (previous_dims ! i))
        in if j \<ge> length previous_dims then None
           else permute_dims_loop previous_dims new_order (Suc i) k (dims[i := previous_dims ! j]))"

definition Array_header_order :: "int list \<Rightarrow> int list \<Rightarrow> Array_header option" where
  "Array_header_order previous_dims new_order =
     (if numel previous_dims \<le> 0 then Some header0
      else if new_order = [] then Some header0
      else
        case permute_dims_loop previous_dims new_order 0 (length previous_dims)
               (replicate (length previous_dims) 0) of
          None \<Rightarrow> None
        | Some dims \<Rightarrow>
            if numel previous_dims \<noteq> numel dims then Some header0
            else Some \<lparr>hdr_dims = dims,
                       hdr_strides = compute_strides dims (replicate (length previous_dims) 0),
                       hdr_usable = True, hdr_count = numel dims, hdr_offset = 0,
                       hdr_is_subarray = False\<rparr>)"

text \<open>
  The constructor from a parent shape, a count and an axis (append, insert, remove). The
  loop compares the index with \<open>axis\<close> as it was passed, not with the wrapped \<open>fixed_axis\<close>.
\<close>

definition Array_header_grow :: "int list \<Rightarrow> int \<Rightarrow> int \<Rightarrow> Array_header" where
  "Array_header_grow previous_dims count axis =
     (if numel previous_dims \<le> 0 then header0
      else
        let dims = map (\<lambda>i. if axis = int i then previous_dims ! i + count else previous_dims ! i)
                     [0..<length previous_dims];
            c = numel dims
        in if c \<le> 0 then header0\<lparr>hdr_count := c\<rparr>
           else \<lparr>hdr_dims = dims,
                 hdr_strides = compute_strides dims (replicate (length previous_dims) 0),
                 hdr_usable = True, hdr_count = c, hdr_offset = 0, hdr_is_subarray = False\<rparr>)"

section \<open>The subscripts iterator\<close>

text \<open>
  \<open>Array_subscripts_iterator\<close>. \<open>axis_\<close>, \<open>major_axis_\<close> and the entries of \<open>order_\<close> are
  results of \<open>modulo\<close> by the positive \<open>nsubs_\<close> (or constants), so they are kept as \<open>nat\<close>.
\<close>

record Array_subscripts_iterator =
  it_nsubs :: nat
  it_subs :: "int list"
  it_start :: "int list"
  it_minimum_excluded :: "int list"
  it_maximum_excluded :: "int list"
  it_axis :: nat
  it_order :: "nat list"
  it_major_axis :: nat

definition iterator0 :: Array_subscripts_iterator where
  "iterator0 = \<lparr>it_nsubs = 0, it_subs = [], it_start = [], it_minimum_excluded = [],
                 it_maximum_excluded = [], it_axis = 0, it_order = [], it_major_axis = 0\<rparr>"

text \<open>
  \<open>memoc::copy(src, dst, n)\<close> belongs to an external library: it is taken to copy the
  elements of \<open>src\<close> into the \<open>n\<close> slots of \<open>dst\<close>; slots that \<open>src\<close> does not cover are
  unspecified and modelled as 0.
\<close>

definition memoc_copy :: "int list \<Rightarrow> nat \<Rightarrow> int list" where
  "memoc_copy src n = take n src @ replicate (n - length src) 0"

definition find_major_axis :: "Array_subscripts_iterator \<Rightarrow> nat" where
  "find_major_axis it =
     (let major_axis = (if it_axis it > 0 then 0 else if length (it_subs it) > 1 then 1 else 0)
      in if it_minimum_excluded it ! major_axis = -1 \<and> it_maximum_excluded it ! major_axis = 0
         then (case find (\<lambda>i. it_maximum_excluded it ! i \<noteq> 0) [major_axis + 1..<it_nsubs it] of
                 Some i \<Rightarrow> i
               | None \<Rightarrow> 0)
         else major_axis)"

text \<open>The part shared by both constructors: subscripts, start and bounds.\<close>

definition iterator_bounds ::
  "int list \<Rightarrow> int list \<Rightarrow> int list \<Rightarrow> nat \<Rightarrow> Array_subscripts_iterator" where
  "iterator_bounds start_subs minimum_excluded maximum_excluded nsubs =
     iterator0\<lparr>it_nsubs := nsubs,
       it_subs := (if start_subs = [] then replicate nsubs 0 else memoc_copy start_subs nsubs),
       it_start := (if start_subs = [] then replicate nsubs 0 else memoc_copy start_subs nsubs),
       it_minimum_excluded :=
         (if minimum_excluded \<noteq> [] then memoc_copy minimum_excluded nsubs
          else if start_subs \<noteq> [] then map (\<lambda>x. x - 1) (memoc_copy start_subs nsubs)
          else replicate nsubs (-1)),
       it_maximum_excluded :=
         (if maximum_excluded = [] then replicate nsubs 1
          else memoc_copy maximum_excluded nsubs)\<rparr>"

definition iterator_nsubs :: "int list \<Rightarrow> int list \<Rightarrow> int list \<Rightarrow> nat" where
  "iterator_nsubs start_subs minimum_excluded maximum_excluded =
     (let bounds_size = (if length minimum_excluded > length maximum_excluded
                         then length minimum_excluded else length maximum_excluded)
      in if length start_subs > bounds_size then length start_subs else bounds_size)"

definition iterator_axis ::
  "int list \<Rightarrow> int list \<Rightarrow> int list \<Rightarrow> int \<Rightarrow> Array_subscripts_iterator" where
  "iterator_axis start_subs minimum_excluded maximum_excluded axis =
     (let nsubs = iterator_nsubs start_subs minimum_excluded maximum_excluded
      in if nsubs > 0
         then
           let it0 = iterator_bounds start_subs minimum_excluded maximum_excluded nsubs;
               it = it0\<lparr>it_axis := nat (modulo axis (int nsubs))\<rparr>
           in it\<lparr>it_major_axis := find_major_axis it\<rparr>
         else iterator0)"

definition iterator_order ::
  "int list \<Rightarrow> int list \<Rightarrow> int list \<Rightarrow> int list \<Rightarrow> Array_subscripts_iterator" where
  "iterator_order start_subs minimum_excluded maximum_excluded order =
     (let nsubs = iterator_nsubs start_subs minimum_excluded maximum_excluded
      in if nsubs > 0
         then
           let it0 = iterator_bounds start_subs minimum_excluded maximum_excluded nsubs;
               it = it0\<lparr>it_axis := (if length order \<ge> nsubs then 0 else nsubs - 1),
                        it_order := (if length order \<ge> nsubs
                                   then map (\<lambda>x. nat (modulo x (int nsubs))) (take nsubs order)
                                   else [])\<rparr>
           in it\<lparr>it_major_axis := find_major_axis it\<rparr>
         else iterator0)"

text \<open>The two delegating constructors \<open>(from, to, axis)\<close> and \<open>(from, to, order = {})\<close>.\<close>

definition iterator_to_axis :: "int list \<Rightarrow> int list \<Rightarrow> int \<Rightarrow> Array_subscripts_iterator" where
  "iterator_to_axis from to axis = iterator_axis from [] to axis"

definition iterator_to :: "int list \<Rightarrow> int list \<Rightarrow> int list \<Rightarrow> Array_subscripts_iterator" where
  "iterator_to from to order = iterator_order from [] to order"

definition increment_subscript ::
  "nat \<Rightarrow> nat \<Rightarrow> Array_subscripts_iterator \<Rightarrow> bool \<times> Array_subscripts_iterator" where
  "increment_subscript i major_axis it =
     (let s1 = (it_subs it)[i := it_subs it ! i + (if it_subs it ! i < it_maximum_excluded it ! i then 1 else 0)];
          cont = (s1 ! i = it_maximum_excluded it ! i)
      in if cont \<and> i \<noteq> major_axis
         then (cont, it\<lparr>it_subs := s1[i := (if it_minimum_excluded it ! i + 1 \<noteq> 0
                                            then it_minimum_excluded it ! i + 1 else 0)]\<rparr>)
         else (cont, it\<lparr>it_subs := s1\<rparr>))"

text \<open>
  The loops of \<open>operator++\<close> visit a fixed sequence of axes and stop as soon as
  \<open>increment_subscript\<close> returns false: \<open>increment_while\<close> runs over that sequence.
\<close>

fun increment_while :: "nat list \<Rightarrow> nat \<Rightarrow> Array_subscripts_iterator \<Rightarrow> Array_subscripts_iterator" where
  "increment_while [] major_axis it = it"
| "increment_while (i # rest) major_axis it =
     (case increment_subscript i major_axis it of
        (cont, it') \<Rightarrow> if cont then increment_while rest major_axis it' else it')"

definition increment :: "Array_subscripts_iterator \<Rightarrow> Array_subscripts_iterator" where
  "increment it =
     (if it_order it \<noteq> []
      then increment_while (rev (it_order it)) (it_order it ! 0) it
      else increment_while
             (it_axis it # rev [it_axis it + 1..<length (it_subs it)] @ rev [0..<it_axis it])
             (it_major_axis it) it)"

definition in_range :: "Array_subscripts_iterator \<Rightarrow> bool" where
  "in_range it =
     (let m = (if it_order it \<noteq> [] then it_order it ! 0 else it_major_axis it)
      in it_subs it ! m < it_maximum_excluded it ! m \<and> it_subs it ! m > it_minimum_excluded it ! m)"

section \<open>The array handle\<close>

text \<open>
  Element buffers live in a store, a list of buffers addressed by position; several
  handles may hold the same address. \<open>buffsp_\<close> is the address of the handle's buffer, and
  \<open>None\<close> when \<open>data()\<close> is null: the handle has no buffer, or its buffer has no elements.
  A buffer that is allocated without source data has unspecified contents, given by a
  filler value that the allocating operation takes as a parameter.
\<close>

type_synonym 'a store = "'a list list"

record Array =
  arr_hdr :: Array_header
  arr_buffsp :: "nat option"

datatype error = invalid_argument | out_of_range

definition alloc :: "'a store \<Rightarrow> 'a list \<Rightarrow> nat option \<times> 'a store" where
  "alloc h buf = (if buf = [] then (None, h) else (Some (length h), h @ [buf]))"

definition Array0 :: Array where
  "Array0 = \<lparr>arr_hdr = header0, arr_buffsp = None\<rparr>"

text \<open>\<open>Array(dims, data)\<close> with and without source data.\<close>

definition Array_dims :: "'a store \<Rightarrow> int list \<Rightarrow> 'a \<Rightarrow> Array \<times> 'a store" where
  "Array_dims h dims z =
     (let nh = Array_header_dims dims
      in case alloc h (replicate (nat (hdr_count nh)) z) of
           (p, h') \<Rightarrow> (\<lparr>arr_hdr = nh, arr_buffsp = p\<rparr>, h'))"

definition Array_data :: "'a store \<Rightarrow> int list \<Rightarrow> 'a list \<Rightarrow> Array \<times> 'a store" where
  "Array_data h dims data =
     (let nh = Array_header_dims dims
      in case alloc h (take (nat (hdr_count nh)) data) of
           (p, h') \<Rightarrow> (\<lparr>arr_hdr = nh, arr_buffsp = p\<rparr>, h'))"

text \<open>\<open>operator()(subs)\<close>, read and write.\<close>

definition elem_at :: "'a store \<Rightarrow> Array \<Rightarrow> int list \<Rightarrow> 'a" where
  "elem_at h arr subs =
     h ! the (arr_buffsp arr) !
       nat (subs2ind (hdr_offset (arr_hdr arr)) (hdr_strides (arr_hdr arr)) (hdr_dims (arr_hdr arr)) subs)"

definition put_at :: "'a store \<Rightarrow> Array \<Rightarrow> int list \<Rightarrow> 'a \<Rightarrow> 'a store" where
  "put_at h arr subs v =
     h[the (arr_buffsp arr) :=
         (h ! the (arr_buffsp arr))
           [nat (subs2ind (hdr_offset (arr_hdr arr)) (hdr_strides (arr_hdr arr)) (hdr_dims (arr_hdr arr)) subs) := v]]"

text \<open>\<open>operator()(ranges)\<close>: the slice shares the buffer.\<close>

definition slice :: "Array \<Rightarrow> Interval list \<Rightarrow> Array option" where
  "slice arr ranges =
     (if ranges = [] \<or> ((arr_buffsp arr = None \<or> hdr_is_subarray (arr_hdr arr)) \<and> hdr_empty (arr_hdr arr))
      then Some arr
      else
        case Array_header_slice (hdr_dims (arr_hdr arr)) (hdr_strides (arr_hdr arr)) (hdr_offset (arr_hdr arr)) ranges of
          None \<Rightarrow> None
        | Some nh \<Rightarrow> Some \<lparr>arr_hdr = nh, arr_buffsp = arr_buffsp arr\<rparr>)"

definition empty_arr :: "Array \<Rightarrow> bool" where
  "empty_arr arr = ((arr_buffsp arr = None \<or> hdr_is_subarray (arr_hdr arr)) \<and> hdr_empty (arr_hdr arr))"

section \<open>Operations on arrays\<close>

text \<open>
  Every \<open>while (iterator)\<close> loop of the source is a recursive function on the iterators
  and the store. Whether such a loop ends depends on the iterator's state, so the loops are
  partial functions into \<open>option\<close>: \<open>None\<close> is a loop that never returns. The operations
  that can throw return a sum, \<open>Inl\<close> the exception.
\<close>

partial_function (option) clone_loop ::
  "Array \<Rightarrow> Array \<Rightarrow> Array_subscripts_iterator \<Rightarrow> 'a store \<Rightarrow> 'a store option" where
  "clone_loop arr c iter h =
     (if in_range iter
      then clone_loop arr c (increment iter) (put_at h c (it_subs iter) (elem_at h arr (it_subs iter)))
      else Some h)"

declare clone_loop.simps [code]

definition clone :: "'a store \<Rightarrow> Array \<Rightarrow> 'a \<Rightarrow> (Array \<times> 'a store) option" where
  "clone h arr z =
     (if empty_arr arr then Some (Array0, h)
      else
        case Array_dims h (hdr_dims (arr_hdr arr)) z of
          (c, h1) \<Rightarrow>
            (case clone_loop arr c (iterator_to [] (hdr_dims (arr_hdr arr)) []) h1 of
               None \<Rightarrow> None
             | Some h2 \<Rightarrow> Some (c, h2)))"

partial_function (option) reshape_loop ::
  "Array \<Rightarrow> Array \<Rightarrow> Array_subscripts_iterator \<Rightarrow> Array_subscripts_iterator \<Rightarrow> 'a store
     \<Rightarrow> 'a store option" where
  "reshape_loop arr res prev_ndstor new_ndstor h =
     (if in_range prev_ndstor \<and> in_range new_ndstor
      then reshape_loop arr res (increment prev_ndstor) (increment new_ndstor)
             (put_at h res (it_subs new_ndstor) (elem_at h arr (it_subs prev_ndstor)))
      else Some h)"

declare reshape_loop.simps [code]

definition reshape ::
  "'a store \<Rightarrow> Array \<Rightarrow> int list \<Rightarrow> 'a \<Rightarrow> (error + Array \<times> 'a store) option" where
  "reshape h arr new_dims z =
     (if empty_arr arr then Some (Inr (Array0, h))
      else if hdr_count (arr_hdr arr) \<noteq> numel new_dims then Some (Inl invalid_argument)
      else if hdr_dims (arr_hdr arr) = new_dims then Some (Inr (arr, h))
      else if hdr_is_subarray (arr_hdr arr)
      then
        (case Array_dims h new_dims z of
           (res, h1) \<Rightarrow>
             (case reshape_loop arr res (iterator_to [] (hdr_dims (arr_hdr arr)) [])
                     (iterator_to [] new_dims []) h1 of
                None \<Rightarrow> None
              | Some h2 \<Rightarrow> Some (Inr (res, h2))))
      else
        let new_header = Array_header_dims new_dims
        in if hdr_empty new_header then Some (Inr (Array0, h))
           else Some (Inr (arr\<lparr>arr_hdr := new_header\<rparr>, h)))"

text \<open>
  \<open>append(lhs, rhs, axis)\<close>. In the loop condition \<open>&&\<close> binds tighter than \<open>||\<close>.
\<close>

partial_function (option) append_loop ::
  "Array \<Rightarrow> Array \<Rightarrow> Array \<Rightarrow> nat \<Rightarrow> Array_subscripts_iterator \<Rightarrow> Array_subscripts_iterator
     \<Rightarrow> Array_subscripts_iterator \<Rightarrow> 'a store \<Rightarrow> 'a store option" where
  "append_loop lhs rhs res fixed_axis lhsndstor rhsndstor resndstor h =
     (if in_range resndstor
      then
        let r = it_subs resndstor ! fixed_axis;
            l = hdr_dims (arr_hdr lhs) ! fixed_axis;
            m = hdr_dims (arr_hdr rhs) ! fixed_axis
        in if (in_range lhsndstor \<and> r < l) \<or> r \<ge> l + m
           then append_loop lhs rhs res fixed_axis (increment lhsndstor) rhsndstor
                  (increment resndstor)
                  (put_at h res (it_subs resndstor) (elem_at h lhs (it_subs lhsndstor)))
           else if in_range rhsndstor \<and> r \<ge> l \<and> r < l + m
           then append_loop lhs rhs res fixed_axis lhsndstor (increment rhsndstor)
                  (increment resndstor)
                  (put_at h res (it_subs resndstor) (elem_at h rhs (it_subs rhsndstor)))
           else append_loop lhs rhs res fixed_axis lhsndstor rhsndstor (increment resndstor) h
      else Some h)"

declare append_loop.simps [code]

definition append ::
  "'a store \<Rightarrow> Array \<Rightarrow> Array \<Rightarrow> int \<Rightarrow> 'a \<Rightarrow> (error + Array \<times> 'a store) option" where
  "append h lhs rhs axis z =
     (if empty_arr lhs then map_option Inr (clone h rhs z)
      else if empty_arr rhs then map_option Inr (clone h lhs z)
      else if length (hdr_dims (arr_hdr lhs)) \<noteq> length (hdr_dims (arr_hdr rhs))
      then Some (Inl invalid_argument)
      else
        let fixed_axis = nat (modulo axis (int (length (hdr_dims (arr_hdr lhs)))))
        in if list_ex (\<lambda>i. i \<noteq> fixed_axis \<and> hdr_dims (arr_hdr lhs) ! i \<noteq> hdr_dims (arr_hdr rhs) ! i)
                [0..<length (hdr_dims (arr_hdr lhs))]
           then Some (Inl invalid_argument)
           else
             let new_header = Array_header_grow (hdr_dims (arr_hdr lhs))
                                (hdr_dims (arr_hdr rhs) ! fixed_axis) (int fixed_axis)
             in if hdr_empty new_header then Some (Inr (Array0, h))
                else
                  case Array_dims h [hdr_count (arr_hdr lhs) + hdr_count (arr_hdr rhs)] z of
                    (res0, h1) \<Rightarrow>
                      let res = res0\<lparr>arr_hdr := new_header\<rparr>
                      in (case append_loop lhs rhs res fixed_axis
                                (iterator_to [] (hdr_dims (arr_hdr lhs)) [])
                                (iterator_to [] (hdr_dims (arr_hdr rhs)) [])
                                (iterator_to [] (hdr_dims (arr_hdr res)) []) h1 of
                           None \<Rightarrow> None
                         | Some h2 \<Rightarrow> Some (Inr (res, h2))))"

partial_function (option) insert_loop ::
  "Array \<Rightarrow> Array \<Rightarrow> Array \<Rightarrow> nat \<Rightarrow> int \<Rightarrow> Array_subscripts_iterator
     \<Rightarrow> Array_subscripts_iterator \<Rightarrow> Array_subscripts_iterator \<Rightarrow> 'a store \<Rightarrow> 'a store option" where
  "insert_loop lhs rhs res fixed_axis fixed_ind lhsndstor rhsndstor resndstor h =
     (if in_range resndstor
      then
        let r = it_subs resndstor ! fixed_axis;
            m = hdr_dims (arr_hdr rhs) ! fixed_axis
        in if (in_range lhsndstor \<and> r < fixed_ind) \<or> r \<ge> fixed_ind + m
           then insert_loop lhs rhs res fixed_axis fixed_ind (increment lhsndstor) rhsndstor
                  (increment resndstor)
                  (put_at h res (it_subs resndstor) (elem_at h lhs (it_subs lhsndstor)))
           else if in_range rhsndstor \<and> r \<ge> fixed_ind \<and> r < fixed_ind + m
           then insert_loop lhs rhs res fixed_axis fixed_ind lhsndstor (increment rhsndstor)
                  (increment resndstor)
                  (put_at h res (it_subs resndstor) (elem_at h rhs (it_subs rhsndstor)))
           else insert_loop lhs rhs res fixed_axis fixed_ind lhsndstor rhsndstor
                  (increment resndstor) h
      else Some h)"

declare insert_loop.simps [code]

definition insert_axis ::
  "'a store \<Rightarrow> Array \<Rightarrow> Array \<Rightarrow> int \<Rightarrow> int \<Rightarrow> 'a \<Rightarrow> (error + Array \<times> 'a store) option" where
  "insert_axis h lhs rhs ind axis z =
     (if empty_arr lhs then map_option Inr (clone h rhs z)
      else if empty_arr rhs then map_option Inr (clone h lhs z)
      else if length (hdr_dims (arr_hdr lhs)) \<noteq> length (hdr_dims (arr_hdr rhs))
      then Some (Inl invalid_argument)
      else
        let fixed_axis = nat (modulo axis (int (length (hdr_dims (arr_hdr lhs)))))
        in if list_ex (\<lambda>i. i \<noteq> fixed_axis \<and> hdr_dims (arr_hdr lhs) ! i \<noteq> hdr_dims (arr_hdr rhs) ! i)
                [0..<length (hdr_dims (arr_hdr lhs))]
           then Some (Inl invalid_argument)
           else
             let fixed_ind = modulo ind (hdr_dims (arr_hdr lhs) ! fixed_axis);
                 new_header = Array_header_grow (hdr_dims (arr_hdr lhs))
                                (hdr_dims (arr_hdr rhs) ! fixed_axis) (int fixed_axis)
             in if hdr_empty new_header then Some (Inr (Array0, h))
                else
                  case Array_dims h [hdr_count (arr_hdr lhs) + hdr_count (arr_hdr rhs)] z of
                    (res0, h1) \<Rightarrow>
                      let res = res0\<lparr>arr_hdr := new_header\<rparr>
                      in (case insert_loop lhs rhs res fixed_axis fixed_ind
                                (iterator_to [] (hdr_dims (arr_hdr lhs)) [])
                                (iterator_to [] (hdr_dims (arr_hdr rhs)) [])
                                (iterator_to [] (hdr_dims (arr_hdr res)) []) h1 of
                           None \<Rightarrow> None
                         | Some h2 \<Rightarrow> Some (Inr (res, h2))))"

text \<open>
  \<open>reduce(arr, func)\<close>. \<open>func\<close> takes an element and the accumulator; \<open>cast\<close> is the
  \<open>static_cast\<close> of an element to the accumulator type and \<open>dflt\<close> that type's
  value-initialised object.
\<close>

partial_function (option) reduce_loop ::
  "'a store \<Rightarrow> Array \<Rightarrow> ('a \<Rightarrow> 'b \<Rightarrow> 'b) \<Rightarrow> Array_subscripts_iterator \<Rightarrow> 'b \<Rightarrow> 'b option" where
  "reduce_loop h arr func ndstor res =
     (if in_range ndstor
      then reduce_loop h arr func (increment ndstor) (func (elem_at h arr (it_subs ndstor)) res)
      else Some res)"

declare reduce_loop.simps [code]

definition reduce ::
  "'a store \<Rightarrow> Array \<Rightarrow> ('a \<Rightarrow> 'b \<Rightarrow> 'b) \<Rightarrow> ('a \<Rightarrow> 'b) \<Rightarrow> 'b \<Rightarrow> 'b option" where
  "reduce h arr func cast dflt =
     (if empty_arr arr then Some dflt
      else
        let ndstor = iterator_to [] (hdr_dims (arr_hdr arr)) [];
            res = cast (elem_at h arr (it_subs ndstor))
        in reduce_loop h arr func (increment ndstor) res)"

text \<open>
  \<open>reduce(arr, func, axis)\<close>. The inner \<open>for\<close> loop runs \<open>reduction_iteration_cycle - 1\<close>
  times and advances the source iterator without testing it. The result array has its own
  element type and therefore its own store.
\<close>

fun reduce_cycle ::
  "'a store \<Rightarrow> Array \<Rightarrow> ('a \<Rightarrow> 'b \<Rightarrow> 'b) \<Rightarrow> nat \<Rightarrow> Array_subscripts_iterator \<Rightarrow> 'b
     \<Rightarrow> Array_subscripts_iterator \<times> 'b" where
  "reduce_cycle h arr func 0 arr_ndstor res_element = (arr_ndstor, res_element)"
| "reduce_cycle h arr func (Suc k) arr_ndstor res_element =
     reduce_cycle h arr func k (increment arr_ndstor)
       (func (elem_at h arr (it_subs arr_ndstor)) res_element)"

partial_function (option) reduce_axis_loop ::
  "'a store \<Rightarrow> Array \<Rightarrow> Array \<Rightarrow> ('a \<Rightarrow> 'b \<Rightarrow> 'b) \<Rightarrow> ('a \<Rightarrow> 'b) \<Rightarrow> nat
     \<Rightarrow> Array_subscripts_iterator \<Rightarrow> Array_subscripts_iterator \<Rightarrow> 'b store \<Rightarrow> 'b store option" where
  "reduce_axis_loop h arr res func cast k arr_ndstor res_ndstor hb =
     (if in_range arr_ndstor \<and> in_range res_ndstor
      then
        case reduce_cycle h arr func k (increment arr_ndstor)
               (cast (elem_at h arr (it_subs arr_ndstor))) of
          (arr_ndstor', res_element) \<Rightarrow>
            reduce_axis_loop h arr res func cast k arr_ndstor' (increment res_ndstor)
              (put_at hb res (it_subs res_ndstor) res_element)
      else Some hb)"

declare reduce_axis_loop.simps [code]

definition reduce_axis ::
  "'a store \<Rightarrow> 'b store \<Rightarrow> Array \<Rightarrow> ('a \<Rightarrow> 'b \<Rightarrow> 'b) \<Rightarrow> ('a \<Rightarrow> 'b) \<Rightarrow> int \<Rightarrow> 'b
     \<Rightarrow> (Array \<times> 'b store) option" where
  "reduce_axis h hb arr func cast axis z =
     (if empty_arr arr then Some (Array0, hb)
      else
        let new_header = Array_header_omit (hdr_dims (arr_hdr arr)) axis
        in if hdr_empty new_header then Some (Array0, hb)
           else
             case Array_dims hb [hdr_count new_header] z of
               (res0, hb1) \<Rightarrow>
                 let res = res0\<lparr>arr_hdr := new_header\<rparr>;
                     reduction_iteration_cycle =
                       hdr_dims (arr_hdr arr) !
                         nat (modulo axis (int (length (hdr_dims (arr_hdr arr)))))
                 in (case reduce_axis_loop h arr res func cast (nat (reduction_iteration_cycle - 1))
                           (iterator_to_axis [] (hdr_dims (arr_hdr arr)) axis)
                           (iterator_to [] (hdr_dims (arr_hdr res)) []) hb1 of
                      None \<Rightarrow> None
                    | Some hb2 \<Rightarrow> Some (res, hb2)))"

text \<open>
  \<open>transpose(arr, order)\<close>. The outer \<open>None\<close> also stands for the undefined behaviour of
  the header constructor.
\<close>

partial_function (option) transpose_loop ::
  "Array \<Rightarrow> Array \<Rightarrow> Array_subscripts_iterator \<Rightarrow> Array_subscripts_iterator \<Rightarrow> 'a store
     \<Rightarrow> 'a store option" where
  "transpose_loop arr res arr_ndstor res_ndstor h =
     (if in_range arr_ndstor \<and> in_range res_ndstor
      then transpose_loop arr res (increment arr_ndstor) (increment res_ndstor)
             (put_at h res (it_subs res_ndstor) (elem_at h arr (it_subs arr_ndstor)))
      else Some h)"

declare transpose_loop.simps [code]

definition transpose :: "'a store \<Rightarrow> Array \<Rightarrow> int list \<Rightarrow> 'a \<Rightarrow> (Array \<times> 'a store) option" where
  "transpose h arr order z =
     (if empty_arr arr then Some (Array0, h)
      else
        case Array_header_order (hdr_dims (arr_hdr arr)) order of
          None \<Rightarrow> None
        | Some new_header \<Rightarrow>
            if hdr_empty new_header then Some (Array0, h)
            else
              (case Array_dims h [hdr_count (arr_hdr arr)] z of
                (res0, h1) \<Rightarrow>
                  let res = res0\<lparr>arr_hdr := new_header\<rparr>
                  in (case transpose_loop arr res (iterator_to [] (hdr_dims (arr_hdr arr)) order)
                            (iterator_to [] (hdr_dims (arr_hdr res)) []) h1 of
                       None \<Rightarrow> None
                     | Some h2 \<Rightarrow> Some (res, h2))))"

partial_function (option) all_match_loop ::
  "'a store \<Rightarrow> Array \<Rightarrow> Array \<Rightarrow> ('a \<Rightarrow> 'a \<Rightarrow> bool) \<Rightarrow> Array_subscripts_iterator \<Rightarrow> bool option" where
  "all_match_loop h lhs rhs func ndstor =
     (if in_range ndstor
      then if \<not> func (elem_at h lhs (it_subs ndstor)) (elem_at h rhs (it_subs ndstor))
           then Some False
           else all_match_loop h lhs rhs func (increment ndstor)
      else Some True)"

declare all_match_loop.simps [code]

definition all_match ::
  "'a store \<Rightarrow> Array \<Rightarrow> Array \<Rightarrow> ('a \<Rightarrow> 'a \<Rightarrow> bool) \<Rightarrow> bool option" where
  "all_match h lhs rhs func =
     (if empty_arr lhs \<and> empty_arr rhs then Some True
      else if empty_arr lhs \<or> empty_arr rhs then Some False
      else if hdr_dims (arr_hdr lhs) \<noteq> hdr_dims (arr_hdr rhs) then Some False
      else all_match_loop h lhs rhs func (iterator_to [] (hdr_dims (arr_hdr lhs)) []))"

definition all_equal :: "'a store \<Rightarrow> Array \<Rightarrow> Array \<Rightarrow> bool option" where
  "all_equal h lhs rhs = all_match h lhs rhs (\<lambda>a b. a = b)"

section \<open>Vocabulary of the layout theorems\<close>

text \<open>
  The interval of axis \<open>i\<close> as \<open>compute_dims\<close> and \<open>compute_offset\<close> use it, wrapped and
  then canonicalised; the test that makes \<open>compute_dims\<close> give up; the extent of the
  documented formula \<open>ceil((Re - Rs + 1) / Rt)\<close>; and the extent that \<open>compute_dims\<close> stores,
  the same formula in double precision.
\<close>

definition canon :: "int list \<Rightarrow> Interval list \<Rightarrow> nat \<Rightarrow> Interval" where
  "canon previous_dims intervals i = forward (modulo_interval (intervals ! i) (previous_dims ! i))"

definition degenerate :: "Interval \<Rightarrow> bool" where
  "degenerate iv = (start iv > stop iv \<or> step iv \<le> 0)"

definition extent :: "Interval \<Rightarrow> int" where
  "extent iv = \<lceil>(real_of_int (stop iv - start iv) + 1) / real_of_int (step iv)\<rceil>"

definition double_extent :: "Interval \<Rightarrow> int" where
  "double_extent iv =
     \<lceil>round_double
        (round_double (round_double (real_of_int (stop iv - start iv)) + 1) /
         round_double (real_of_int (step iv)))\<rceil>"

text \<open>
  A subscript tuple brought to the rank \<open>n\<close> of a layout: zeros in front when it is too
  short. Subscripts beyond the rank are never looked at.
\<close>

definition pad_subs :: "nat \<Rightarrow> int list \<Rightarrow> int list" where
  "pad_subs n subs = replicate (n - length subs) 0 @ subs"

section \<open>Vocabulary of the traversal theorems\<close>

text \<open>
  The subscript tuples of a shape in row-major order: the first axis is the slowest, the
  last axis the fastest. This is the order in which the theorems below say the default
  iterator visits an array.
\<close>

fun all_subs :: "int list \<Rightarrow> int list list" where
  "all_subs [] = [[]]"
| "all_subs (d # ds) = concat (map (\<lambda>i. map ((#) (int i)) (all_subs ds)) [0..<nat d])"

text \<open>
  The position of a subscript tuple in an odometer whose wheels are the axes \<open>L\<close>, the
  fastest first, and whose wheel \<open>i\<close> has \<open>mx ! i\<close> digits; and the number of positions.
\<close>

fun odo_pos :: "nat list \<Rightarrow> int list \<Rightarrow> int list \<Rightarrow> int" where
  "odo_pos [] mx s = 0"
| "odo_pos (i # L) mx s = s ! i + mx ! i * odo_pos L mx s"

definition odo_cnt :: "nat list \<Rightarrow> int list \<Rightarrow> int" where
  "odo_cnt L mx = prod_list (map ((!) mx) L)"

text \<open>The row-major position of a subscript tuple in a shape (Horner's scheme).\<close>

fun rm_pos :: "int list \<Rightarrow> int list \<Rightarrow> int" where
  "rm_pos (d # ds) (x # xs) = x * prod_list ds + rm_pos ds xs"
| "rm_pos ds xs = 0"

text \<open>
  The shape that is left when axis \<open>a\<close> is taken out of a shape, and a subscript tuple of
  that shape with the subscript \<open>x\<close> put in at axis \<open>a\<close>.
\<close>

definition outer_dims :: "nat \<Rightarrow> int list \<Rightarrow> int list" where
  "outer_dims a dims = take a dims @ drop (Suc a) dims"

definition ins_at :: "nat \<Rightarrow> int \<Rightarrow> int list \<Rightarrow> int list" where
  "ins_at a x r = take a r @ x # drop a r"

section \<open>Proofs\<close>

lemma numel_loop_eq:
  "numel_loop ds r = (if (\<forall>d\<in>set ds. 0 < d) then r * prod_list ds else 0)"
  by (induction ds arbitrary: r) (auto simp: algebra_simps)

lemma numel_eq:
  "numel ds = (if ds \<noteq> [] \<and> (\<forall>d\<in>set ds. 0 < d) then prod_list ds else 0)"
  by (simp add: numel_def numel_loop_eq)

lemma prod_list_pos: "(\<forall>d\<in>set ds. (0::int) < d) \<Longrightarrow> 0 < prod_list ds"
  by (induction ds) auto

lemma numel_pos_iff: "0 < numel ds \<longleftrightarrow> ds \<noteq> [] \<and> (\<forall>d\<in>set ds. 0 < d)"
  using prod_list_pos[of ds] by (auto simp: numel_eq)

lemma numel_nonneg: "0 \<le> numel ds"
  using prod_list_pos[of ds] by (auto simp: numel_eq intro: less_imp_le)

lemma length_strides_down [simp]: "length (strides_down dims lo k s) = length s"
  by (induction k arbitrary: s) auto

lemma strides_down_above:
  "lo + k \<le> j \<Longrightarrow> strides_down dims lo k s ! j = s ! j"
  by (induction k arbitrary: s) auto

lemma strides_down_below:
  "j < lo \<Longrightarrow> strides_down dims lo k s ! j = s ! j"
  by (induction k arbitrary: s) auto

lemma strides_down_step:
  "lo + k < length s \<Longrightarrow> lo \<le> j \<Longrightarrow> j < lo + k \<Longrightarrow>
   strides_down dims lo k s ! j = strides_down dims lo k s ! (j + 1) * dims ! (j + 1)"
proof (induction k arbitrary: s)
  case 0
  then show ?case by simp
next
  case (Suc k)
  let ?s' = "s[lo + k := s ! (lo + k + 1) * dims ! (lo + k + 1)]"
  show ?case
  proof (cases "j < lo + k")
    case True
    with Suc.IH[of ?s'] Suc.prems show ?thesis by simp
  next
    case False
    with Suc.prems have j: "j = lo + k" by simp
    show ?thesis using Suc.prems by (simp add: j strides_down_above)
  qed
qed

lemma compute_strides_row_major:
  assumes "length s = length dims" "dims \<noteq> []"
  shows "length (compute_strides dims s) = length dims"
    and "compute_strides dims s ! (length dims - 1) = 1"
    and "i + 1 < length dims \<Longrightarrow>
         compute_strides dims s ! i = compute_strides dims s ! (i + 1) * dims ! (i + 1)"
proof -
  show "length (compute_strides dims s) = length dims"
    using assms by (simp add: compute_strides_def Let_def)
  show "compute_strides dims s ! (length dims - 1) = 1"
    using assms by (simp add: compute_strides_def Let_def strides_down_above)
  show "compute_strides dims s ! i = compute_strides dims s ! (i + 1) * dims ! (i + 1)"
    if "i + 1 < length dims"
    using assms that
      strides_down_step[of 0 "length dims - 1" "s[length dims - 1 := 1]" i dims]
    by (simp add: compute_strides_def Let_def)
qed

lemma fold_update_upt_length [simp]:
  "length (fold (\<lambda>i s. s[i := f i]) [a..<b] s) = length s"
  by (induction b arbitrary: s) auto

lemma fold_update_upt_nth:
  "j < length s \<Longrightarrow>
   fold (\<lambda>i s. s[i := f i]) [a..<b] s ! j = (if a \<le> j \<and> j < b then f j else s ! j)"
  by (induction b arbitrary: s) (auto simp: nth_list_update less_Suc_eq)

lemma fold_add_upt:
  "fold (\<lambda>i (acc::int). acc + g i) [a..<a + k] x = x + (\<Sum>i = a..<a + k. g i)"
  by (induction k arbitrary: x) (auto simp: algebra_simps)

lemma powi_nat: "0 \<le> e \<Longrightarrow> (2::real) powi e = 2 ^ nat e"
  by (simp add: power_int_def)

lemma powi_neg: "(2::real) powi (- e) = 1 / 2 powi e"
  by (simp add: power_int_minus divide_inverse)

lemma real_le_pow2: "(n::int) \<le> 2 ^ k \<Longrightarrow> real_of_int n \<le> 2 ^ k"
  by simp

lemma real_pow2_le: "2 ^ k \<le> (n::int) \<Longrightarrow> 2 ^ k \<le> real_of_int n"
  by simp

lemma exponent2_bounds:
  assumes "0 < x"
  shows "2 powi (exponent2 x) \<le> x" and "x < 2 powi (exponent2 x + 1)"
proof -
  have "2 powi (exponent2 x) \<le> x \<and> x < 2 powi (exponent2 x + 1)"
  proof (cases "1 \<le> x")
    case True
    let ?n = "\<lfloor>x\<rfloor>"
    have n: "0 < ?n" using True by simp
    from bitlen_bounds[OF n] have b: "2 ^ nat (bitlen ?n - 1) \<le> ?n" "?n < 2 ^ nat (bitlen ?n)"
      by simp_all
    have b1: "1 \<le> bitlen ?n" using n bitlen_eq_zero_iff[of ?n] bitlen_nonneg[of ?n] by linarith
    have e: "exponent2 x = bitlen ?n - 1" using True by (simp add: exponent2_def)
    have "(2::real) ^ nat (bitlen ?n - 1) \<le> real_of_int ?n" using b(1) by (rule real_pow2_le)
    then have "(2::real) ^ nat (bitlen ?n - 1) \<le> x" using of_int_floor_le[of x] by linarith
    then have lo: "2 powi (bitlen ?n - 1) \<le> x"
      using b1 by (simp only: powi_nat[of "bitlen ?n - 1"])
    have "?n + 1 \<le> 2 ^ nat (bitlen ?n)" using b(2) by simp
    then have "real_of_int (?n + 1) \<le> 2 ^ nat (bitlen ?n)" by (rule real_le_pow2)
    then have "real_of_int ?n + 1 \<le> 2 ^ nat (bitlen ?n)" by (simp only: of_int_add of_int_1)
    moreover have "x < real_of_int ?n + 1" by linarith
    ultimately have "x < 2 ^ nat (bitlen ?n)" by linarith
    then have hi: "x < 2 powi (bitlen ?n - 1 + 1)" using b1 powi_nat[of "bitlen ?n"] by simp
    show ?thesis using lo hi e by simp
  next
    case False
    let ?y = "1 / x" and ?m = "\<lceil>1 / x\<rceil> - 1"
    have y: "1 < ?y" using False assms by simp
    then have "1 < \<lceil>?y\<rceil>" by (simp add: less_ceiling_iff)
    then have m: "0 < ?m" by simp
    from bitlen_bounds[OF m] have b: "2 ^ nat (bitlen ?m - 1) \<le> ?m" "?m < 2 ^ nat (bitlen ?m)"
      by simp_all
    have b1: "1 \<le> bitlen ?m" using m bitlen_eq_zero_iff[of ?m] bitlen_nonneg[of ?m] by linarith
    have e: "exponent2 x = - bitlen ?m" using False by (simp add: exponent2_def)
    have "\<lceil>?y\<rceil> \<le> 2 ^ nat (bitlen ?m)" using b(2) by simp
    then have "real_of_int \<lceil>?y\<rceil> \<le> 2 ^ nat (bitlen ?m)" by (rule real_le_pow2)
    then have "?y \<le> 2 ^ nat (bitlen ?m)" using le_of_int_ceiling[of ?y] by linarith
    then have "?y \<le> 2 powi (bitlen ?m)" using b1 powi_nat[of "bitlen ?m"] by simp
    then have "1 / 2 powi (bitlen ?m) \<le> x"
      using assms by (simp add: field_simps)
    then have lo: "2 powi (- bitlen ?m) \<le> x" by (simp only: powi_neg)
    have "(2::real) ^ nat (bitlen ?m - 1) \<le> real_of_int ?m" using b(1) by (rule real_pow2_le)
    moreover have "real_of_int ?m < ?y" using ceiling_correct[of ?y] by simp
    ultimately have "2 ^ nat (bitlen ?m - 1) < ?y" by linarith
    then have "2 powi (bitlen ?m - 1) < ?y" using b1 powi_nat[of "bitlen ?m - 1"] by simp
    then have "x < 1 / 2 powi (bitlen ?m - 1)" using assms by (simp add: field_simps)
    then have "x < 2 powi (- (bitlen ?m - 1))" by (simp only: powi_neg)
    then have hi: "x < 2 powi (- bitlen ?m + 1)" by simp
    show ?thesis using lo hi e by simp
  qed
  then show "2 powi (exponent2 x) \<le> x" and "x < 2 powi (exponent2 x + 1)" by simp_all
qed

lemma round_even_floor: "\<lfloor>y\<rfloor> \<le> round_even y"
  by (simp add: round_even_def Let_def)

lemma round_even_int: "round_even (of_int k) = k"
  by (simp add: round_even_def Let_def)

lemma round_even_le: "y \<le> of_int M \<Longrightarrow> round_even y \<le> M"
proof -
  assume a: "y \<le> of_int M"
  show ?thesis
  proof (cases "y = of_int \<lfloor>y\<rfloor>")
    case True
    then have "round_even y = \<lfloor>y\<rfloor>" by (simp add: round_even_def Let_def)
    then show ?thesis using a by (simp add: floor_le_iff)
  next
    case False
    then have "of_int \<lfloor>y\<rfloor> < y" using of_int_floor_le[of y] by linarith
    then have "real_of_int \<lfloor>y\<rfloor> < of_int M" using a by linarith
    then have "\<lfloor>y\<rfloor> + 1 \<le> M" by simp
    moreover have "round_even y \<le> \<lfloor>y\<rfloor> + 1" by (simp add: round_even_def Let_def)
    ultimately show ?thesis by linarith
  qed
qed

lemma round_even_gt: "of_int N + 1 / 2 < y \<Longrightarrow> N + 1 \<le> round_even y"
proof -
  assume a: "of_int N + 1 / 2 < y"
  then have "of_int N \<le> y" by simp
  then have f: "N \<le> \<lfloor>y\<rfloor>" by (simp add: le_floor_iff)
  show ?thesis
  proof (cases "N = \<lfloor>y\<rfloor>")
    case True
    then have "1 / 2 < y - of_int \<lfloor>y\<rfloor>" using a by simp
    then have "round_even y = \<lfloor>y\<rfloor> + 1" by (simp add: round_even_def Let_def)
    then show ?thesis using True by simp
  next
    case False
    then show ?thesis using f round_even_floor[of y] by linarith
  qed
qed

lemma round_double_pos_form:
  "0 < x \<Longrightarrow> round_double x =
     2 powi (exponent2 x - 52) * of_int (round_even (x / 2 powi (exponent2 x - 52)))"
  by (simp add: round_double_def Let_def)

lemma ulp_split: "(2::real) powi (e - 52) * 2 ^ 52 = 2 powi e"
proof -
  have "(2::real) powi (e - 52) = 2 powi e / 2 powi 52" by (rule power_int_diff) simp
  then show ?thesis by simp
qed

lemma round_double_ge:
  assumes "0 < x"
  shows "2 powi (exponent2 x) \<le> round_double x"
proof -
  let ?u = "(2::real) powi (exponent2 x - 52)"
  have u: "0 < ?u" by simp
  have "?u * 2 ^ 52 \<le> x" using exponent2_bounds(1)[OF assms] by (simp only: ulp_split)
  then have "real_of_int (2 ^ 52) \<le> x / ?u" using u by (simp add: field_simps)
  then have "2 ^ 52 \<le> \<lfloor>x / ?u\<rfloor>" by (simp only: le_floor_iff)
  then have "2 ^ 52 \<le> round_even (x / ?u)" using round_even_floor[of "x / ?u"] by linarith
  then have "real_of_int (2 ^ 52) \<le> real_of_int (round_even (x / ?u))" by (simp only: of_int_le_iff)
  then have "?u * 2 ^ 52 \<le> ?u * real_of_int (round_even (x / ?u))"
    using u by simp
  then show ?thesis using round_double_pos_form[OF assms] by (simp only: ulp_split)
qed

lemma round_double_pos: "0 < x \<Longrightarrow> 0 < round_double x"
  using round_double_ge[of x] zero_less_power_int[of "2::real" "exponent2 x"] by linarith

lemma exponent2_small:
  assumes "0 < x" "x < 2 ^ 53"
  shows "exponent2 x \<le> 52"
proof (rule ccontr)
  assume "\<not> exponent2 x \<le> 52"
  then have "53 \<le> exponent2 x" by simp
  then have "(2::real) powi 53 \<le> 2 powi (exponent2 x)" by (intro power_int_increasing) simp_all
  then show False using exponent2_bounds(1)[OF assms(1)] assms(2) by simp
qed

lemma ulp_inv: "e \<le> 52 \<Longrightarrow> x / (2::real) powi (e - 52) = x * 2 ^ nat (52 - e)"
proof -
  assume e: "e \<le> 52"
  have "(2::real) powi (e - 52) = 2 powi (- (52 - e))" by simp
  also have "\<dots> = 1 / 2 powi (52 - e)" by (rule powi_neg)
  also have "\<dots> = 1 / 2 ^ nat (52 - e)" using e by (simp add: powi_nat)
  finally show ?thesis by simp
qed

lemma ulp_mult: "e \<le> 52 \<Longrightarrow> (2::real) powi (e - 52) * (x * 2 ^ nat (52 - e)) = x"
proof -
  assume e: "e \<le> 52"
  have "(2::real) powi (e - 52) = 2 powi (- (52 - e))" by simp
  also have "\<dots> = 1 / 2 powi (52 - e)" by (rule powi_neg)
  also have "\<dots> = 1 / 2 ^ nat (52 - e)" using e by (simp add: powi_nat)
  finally show ?thesis by simp
qed

lemma round_double_le_int:
  assumes "0 < x" "x \<le> of_int m" "m < 2 ^ 53"
  shows "round_double x \<le> of_int m"
proof -
  let ?e = "exponent2 x"
  let ?u = "(2::real) powi (?e - 52)" and ?k = "nat (52 - ?e)"
  have "real_of_int m < real_of_int (2 ^ 53)" using assms(3) by (simp only: of_int_less_iff)
  then have "x < 2 ^ 53" using assms(2) by simp
  then have e: "?e \<le> 52" using exponent2_small[OF assms(1)] by simp
  have "x * 2 ^ ?k \<le> of_int m * 2 ^ ?k" using assms(2) by simp
  then have "x / ?u \<le> of_int (m * 2 ^ ?k)" by (simp add: ulp_inv[OF e])
  then have "round_even (x / ?u) \<le> m * 2 ^ ?k" by (rule round_even_le)
  then have "real_of_int (round_even (x / ?u)) \<le> real_of_int (m * 2 ^ ?k)" by (simp only: of_int_le_iff)
  then have "?u * real_of_int (round_even (x / ?u)) \<le> ?u * (of_int m * 2 ^ ?k)" by simp
  then show ?thesis using round_double_pos_form[OF assms(1)] ulp_mult[OF e, of "of_int m"] by simp
qed

lemma round_double_int_exact:
  assumes "0 \<le> n" "n < 2 ^ 53"
  shows "round_double (of_int n) = of_int n"
proof (cases "n = 0")
  case True
  then show ?thesis by (simp add: round_double_def)
next
  case False
  let ?x = "real_of_int n"
  let ?e = "exponent2 ?x"
  let ?u = "(2::real) powi (?e - 52)" and ?k = "nat (52 - ?e)"
  have x: "0 < ?x" using False assms(1) by simp
  have "real_of_int n < real_of_int (2 ^ 53)" using assms(2) by (simp only: of_int_less_iff)
  then have "?x < 2 ^ 53" by simp
  then have e: "?e \<le> 52" using exponent2_small[OF x] by simp
  have "?x / ?u = of_int (n * 2 ^ ?k)" by (simp add: ulp_inv[OF e])
  then have "round_even (?x / ?u) = n * 2 ^ ?k" by (simp only: round_even_int)
  then have "round_double ?x = ?u * (?x * 2 ^ ?k)"
    using round_double_pos_form[OF x] by simp
  then show ?thesis by (simp only: ulp_mult[OF e])
qed

lemma round_double_big:
  assumes "2 ^ 53 \<le> x"
  shows "2 ^ 53 \<le> round_double x"
proof -
  have "(0::real) < 2 ^ 53" by simp
  then have x: "0 < x" using assms by linarith
  have lt: "(2::real) powi 53 < 2 powi (exponent2 x + 1)"
    using exponent2_bounds(2)[OF x] assms by simp
  have "53 < exponent2 x + 1"
  proof (rule ccontr)
    assume "\<not> 53 < exponent2 x + 1"
    then have "exponent2 x + 1 \<le> 53" by simp
    then have "(2::real) powi (exponent2 x + 1) \<le> 2 powi 53"
      by (intro power_int_increasing) simp_all
    then show False using lt by simp
  qed
  then have "(2::real) powi 53 \<le> 2 powi (exponent2 x)" by (intro power_int_increasing) simp_all
  then show ?thesis using round_double_ge[OF x] by simp
qed

lemma round_double_quot_gt:
  assumes b: "0 < b" and n: "0 \<le> n" and lt: "n * b < a" and a: "a < 2 ^ 53"
  shows "of_int n < round_double (of_int a / of_int b)"
proof -
  let ?x = "real_of_int a / real_of_int b"
  let ?e = "exponent2 ?x"
  let ?u = "(2::real) powi (?e - 52)" and ?k = "nat (52 - ?e)"
  have "0 \<le> n * b" using n b by simp
  then have a0: "0 < a" using lt by linarith
  have x: "0 < ?x" using a0 b by simp
  have rb: "1 \<le> real_of_int b" using b by simp
  have "?x \<le> real_of_int a" using rb a0 by (simp add: field_simps mult_le_cancel_left1)
  moreover have "real_of_int a < real_of_int (2 ^ 53)" using a by (simp only: of_int_less_iff)
  ultimately have "?x < 2 ^ 53" by simp
  then have e: "?e \<le> 52" using exponent2_small[OF x] by simp
  have "2 powi ?e \<le> ?x" using exponent2_bounds(1)[OF x] .
  then have "real_of_int b * 2 powi ?e \<le> real_of_int a" using b by (simp add: field_simps)
  then have "real_of_int b * 2 powi ?e < 2 ^ 53"
    using \<open>real_of_int a < real_of_int (2 ^ 53)\<close> by simp
  then have "2 powi ?e * real_of_int b < 2 ^ 53" by (simp only: mult.commute)
  also have "(2::real) ^ 53 = 2 powi ?e * (2 ^ ?k * 2)"
  proof -
    have "(2::real) powi ?e * 2 ^ ?k = 2 powi ?e * 2 powi (52 - ?e)" using e by (simp add: powi_nat)
    also have "\<dots> = 2 powi (?e + (52 - ?e))" by (subst power_int_add) simp_all
    finally have "(2::real) powi ?e * 2 ^ ?k = 2 ^ 52" by simp
    then have "(2::real) powi ?e * 2 ^ ?k * 2 = 2 ^ 52 * 2" by (simp only:)
    then have A: "(2::real) powi ?e * (2 ^ ?k * 2) = 2 ^ 52 * 2" by (simp only: mult.assoc)
    have B: "(2::real) ^ 53 = 2 ^ 52 * 2" by simp
    show ?thesis by (rule trans[OF B A[symmetric]])
  qed
  finally have bk: "real_of_int b < 2 ^ ?k * 2"
    using mult_less_cancel_left_pos[of "2 powi ?e" "real_of_int b" "2 ^ ?k * 2"] by simp
  have "n * b + 1 \<le> a" using lt by simp
  then have "real_of_int (n * b + 1) \<le> real_of_int a" by (simp only: of_int_le_iff)
  then have "real_of_int n * real_of_int b + 1 \<le> real_of_int a" by simp
  then have "(real_of_int n * real_of_int b + 1) / real_of_int b \<le> ?x"
    using b by (intro divide_right_mono) simp_all
  moreover have "(real_of_int n * real_of_int b + 1) / real_of_int b =
                 real_of_int n + 1 / real_of_int b"
    using b by (simp add: field_simps)
  ultimately have d: "real_of_int n + 1 / real_of_int b \<le> ?x" by simp
  have "1 / 2 < 2 ^ ?k / real_of_int b" using bk b by (simp add: field_simps)
  then have "real_of_int n * 2 ^ ?k + 1 / 2 < (real_of_int n + 1 / real_of_int b) * 2 ^ ?k"
    by (simp add: field_simps)
  also have "\<dots> \<le> ?x * 2 ^ ?k" using d by (intro mult_right_mono) simp_all
  finally have "of_int (n * 2 ^ ?k) + 1 / 2 < ?x / ?u" by (simp add: ulp_inv[OF e])
  then have "n * 2 ^ ?k + 1 \<le> round_even (?x / ?u)" by (rule round_even_gt)
  then have "real_of_int (n * 2 ^ ?k + 1) \<le> real_of_int (round_even (?x / ?u))"
    by (simp only: of_int_le_iff)
  then have "?u * real_of_int (n * 2 ^ ?k + 1) \<le> ?u * real_of_int (round_even (?x / ?u))"
    by simp
  then have "?u * (real_of_int n * 2 ^ ?k) + ?u \<le> round_double ?x"
    using round_double_pos_form[OF x] by (simp add: algebra_simps)
  then have "real_of_int n + ?u \<le> round_double ?x" by (simp only: ulp_mult[OF e])
  moreover have "0 < ?u" by simp
  ultimately show ?thesis by linarith
qed

lemma double_extent_pos: "\<not> degenerate iv \<Longrightarrow> 1 \<le> double_extent iv"
proof -
  assume a: "\<not> degenerate iv"
  let ?r0 = "round_double (real_of_int (stop iv - start iv))"
  let ?rb = "round_double (real_of_int (step iv))"
  have d: "0 \<le> stop iv - start iv" and t: "0 < step iv" using a by (simp_all add: degenerate_def)
  have r0: "0 \<le> ?r0"
  proof (cases "stop iv - start iv = 0")
    case True
    then show ?thesis by (simp add: round_double_def)
  next
    case False
    then have "0 < real_of_int (stop iv - start iv)" using d by simp
    from round_double_pos[OF this] show ?thesis by simp
  qed
  then have "0 < ?r0 + 1" by simp
  then have r1: "0 < round_double (?r0 + 1)" by (rule round_double_pos)
  have "0 < real_of_int (step iv)" using t by simp
  then have rb: "0 < ?rb" by (rule round_double_pos)
  have "0 < round_double (?r0 + 1) / ?rb" using r1 rb by simp
  then have "0 < round_double (round_double (?r0 + 1) / ?rb)" by (rule round_double_pos)
  then have "0 < \<lceil>round_double (round_double (?r0 + 1) / ?rb)\<rceil>" by (simp only: zero_less_ceiling)
  then show ?thesis by (simp add: double_extent_def)
qed

lemma ceiling_round_quot:
  assumes a0: "0 < a" and a: "a < 2 ^ 53" and t: "0 < b"
  shows "\<lceil>round_double (real_of_int a / real_of_int b)\<rceil> = \<lceil>real_of_int a / real_of_int b\<rceil>"
proof -
  let ?x = "real_of_int a / real_of_int b"
  let ?n = "\<lceil>?x\<rceil> - 1"
  have x: "0 < ?x" using a0 t by simp
  then have "0 < \<lceil>?x\<rceil>" by (simp only: zero_less_ceiling)
  then have n0: "0 \<le> ?n" by simp
  have "real_of_int ?n < ?x" using ceiling_correct[of ?x] by simp
  then have "real_of_int ?n * real_of_int b < real_of_int a" using t by (simp add: field_simps)
  then have "real_of_int (?n * b) < real_of_int a" by simp
  then have nb: "?n * b < a" by (simp only: of_int_less_iff)
  from round_double_quot_gt[OF t n0 nb a] have lo: "real_of_int ?n < round_double ?x" .
  have "1 \<le> real_of_int b" using t by simp
  then have "?x \<le> real_of_int a / 1" using a0 by (intro divide_left_mono) simp_all
  then have "?x \<le> real_of_int a" by simp
  then have "\<lceil>?x\<rceil> \<le> a" by (simp only: ceiling_le_iff)
  then have m: "?n + 1 < 2 ^ 53" using a by linarith
  have "?x \<le> real_of_int (?n + 1)" using le_of_int_ceiling[of ?x] by simp
  from round_double_le_int[OF x this m] have hi: "round_double ?x \<le> real_of_int (?n + 1)" .
  have "\<lceil>round_double ?x\<rceil> = ?n + 1"
    using lo hi by (intro ceiling_unique) simp_all
  then show ?thesis by simp
qed

lemma ceiling_round_quot_big:
  assumes a0: "0 < a" and a: "a < 2 ^ 53" and rb: "2 ^ 53 \<le> rb"
  shows "\<lceil>round_double (real_of_int a / rb)\<rceil> = 1"
proof -
  let ?x = "real_of_int a / rb"
  have ra: "real_of_int a < 2 ^ 53" using a by simp
  have "(0::real) < 2 ^ 53" by simp
  then have rb0: "0 < rb" using rb by linarith
  have x: "0 < ?x" using a0 rb0 by simp
  have "real_of_int a \<le> rb" using ra rb by linarith
  then have "?x \<le> 1" using rb0 by simp
  then have "?x \<le> real_of_int 1" by simp
  from round_double_le_int[OF x this] have hi: "round_double ?x \<le> 1" by simp
  have lo: "0 < round_double ?x" using x by (rule round_double_pos)
  show ?thesis using lo hi by (intro ceiling_unique) simp_all
qed

lemma ceiling_quot_big:
  assumes a0: "0 < a" and a: "a < 2 ^ 53" and b: "2 ^ 53 \<le> (b::int)"
  shows "\<lceil>real_of_int a / real_of_int b\<rceil> = 1"
proof -
  let ?y = "real_of_int a / real_of_int b"
  have "a \<le> b" using a b by linarith
  then have ab: "real_of_int a \<le> real_of_int b" by (simp only: of_int_le_iff)
  have b0: "0 < real_of_int b" using a0 ab by simp
  have "?y \<le> 1" using ab b0 by simp
  moreover have "0 < ?y" using a0 b0 by simp
  ultimately show ?thesis by (intro ceiling_unique) simp_all
qed

lemma double_extent_exact:
  assumes d: "start iv \<le> stop iv" and a: "stop iv - start iv + 1 < 2 ^ 53" and t: "0 < step iv"
  shows "double_extent iv = extent iv"
proof -
  define A where "A = stop iv - start iv + 1"
  define B where "B = step iv"
  have a0: "0 < A" and a53: "A < 2 ^ 53" and b0: "0 < B" using d a t by (simp_all add: A_def B_def)
  have "round_double (real_of_int (stop iv - start iv)) = real_of_int (stop iv - start iv)"
    using d a by (intro round_double_int_exact) simp_all
  moreover have "real_of_int (stop iv - start iv) + 1 = real_of_int A" by (simp add: A_def)
  moreover have "round_double (real_of_int A) = real_of_int A"
    using a0 a53 by (intro round_double_int_exact) simp_all
  ultimately have de: "double_extent iv =
      \<lceil>round_double (real_of_int A / round_double (real_of_int B))\<rceil>"
    by (simp only: double_extent_def B_def)
  have ex: "extent iv = \<lceil>real_of_int A / real_of_int B\<rceil>" by (simp add: extent_def A_def B_def)
  show ?thesis
  proof (cases "B < 2 ^ 53")
    case True
    have "round_double (real_of_int B) = real_of_int B"
      using b0 True by (intro round_double_int_exact) simp_all
    then show ?thesis using de ex ceiling_round_quot[OF a0 a53 b0] by simp
  next
    case False
    then have b: "2 ^ 53 \<le> B" by simp
    then have "(2::real) ^ 53 \<le> real_of_int B" by (rule real_pow2_le)
    from round_double_big[OF this] have "2 ^ 53 \<le> round_double (real_of_int B)" .
    from ceiling_round_quot_big[OF a0 a53 this] ceiling_quot_big[OF a0 a53 b]
    show ?thesis using de ex by simp
  qed
qed

lemma extent_int: "0 < step iv \<Longrightarrow> extent iv = - ((- (stop iv - start iv + 1)) div step iv)"
proof -
  have "(real_of_int (stop iv - start iv) + 1) = of_int (stop iv - start iv + 1)" by simp
  then show ?thesis unfolding extent_def
    by (metis ceiling_divide_eq_div)
qed

lemma extent_pos: "\<not> degenerate iv \<Longrightarrow> 1 \<le> extent iv"
proof -
  assume a: "\<not> degenerate iv"
  then have "0 < (real_of_int (stop iv - start iv) + 1) / real_of_int (step iv)"
    by (auto simp: degenerate_def intro!: divide_pos_pos)
  then show ?thesis unfolding extent_def by linarith
qed

lemma compute_dims_loop_Some:
  "(\<forall>j. i \<le> j \<and> j < i + k \<longrightarrow> \<not> degenerate (canon pd R j)) \<Longrightarrow>
   \<exists>d'. compute_dims_loop pd R i k d = Some d' \<and> length d' = length d \<and>
     (\<forall>j<length d. d' ! j = (if i \<le> j \<and> j < i + k then double_extent (canon pd R j) else d ! j))"
proof (induction k arbitrary: i d)
  case 0
  then show ?case by simp
next
  case (Suc k)
  let ?d1 = "d[i := double_extent (canon pd R i)]"
  have nd: "\<not> degenerate (canon pd R i)" using Suc.prems by simp
  have "\<forall>j. Suc i \<le> j \<and> j < Suc i + k \<longrightarrow> \<not> degenerate (canon pd R j)"
    using Suc.prems by simp
  from Suc.IH[OF this, of ?d1] obtain d' where
    d': "compute_dims_loop pd R (Suc i) k ?d1 = Some d'" "length d' = length d"
    "\<forall>j<length d. d' ! j = (if Suc i \<le> j \<and> j < Suc i + k then double_extent (canon pd R j) else ?d1 ! j)"
    by auto
  have "compute_dims_loop pd R i (Suc k) d = Some d'"
    using nd d'(1) by (simp add: Let_def canon_def degenerate_def double_extent_def not_less not_le)
  moreover have "\<forall>j<length d. d' ! j = (if i \<le> j \<and> j < i + Suc k then double_extent (canon pd R j) else d ! j)"
  proof (intro allI impI)
    fix j assume j: "j < length d"
    show "d' ! j = (if i \<le> j \<and> j < i + Suc k then double_extent (canon pd R j) else d ! j)"
    proof (cases "j = i")
      case True
      then show ?thesis using d'(3) j by simp
    next
      case False
      then show ?thesis using d'(3) j by (auto simp: nth_list_update)
    qed
  qed
  ultimately show ?case using d'(2) by blast
qed

lemma compute_dims_loop_None:
  "\<exists>j. i \<le> j \<and> j < i + k \<and> degenerate (canon pd R j) \<Longrightarrow>
   compute_dims_loop pd R i k d = None"
proof (induction k arbitrary: i d)
  case 0
  then show ?case by auto
next
  case (Suc k)
  show ?case
  proof (cases "degenerate (canon pd R i)")
    case True
    then show ?thesis by (auto simp: Let_def canon_def degenerate_def)
  next
    case False
    with Suc.prems have "\<exists>j. Suc i \<le> j \<and> j < Suc i + k \<and> degenerate (canon pd R j)"
      by (metis Suc_leI add_Suc add_Suc_right le_neq_implies_less)
    from Suc.IH[OF this] False show ?thesis
      by (simp add: Let_def canon_def degenerate_def not_less not_le)
  qed
qed

lemma step_forward_modulo: "step (forward (modulo_interval iv n)) = step (forward iv)"
  by (simp add: forward_def modulo_interval_def)

lemma compute_strides_intervals_Some:
  assumes "length ps = length pd" "length s = length pd" "pd \<noteq> []" "length R \<le> length pd"
  shows "\<exists>s'. compute_strides_intervals pd ps R s = Some s' \<and> length s' = length pd \<and>
           (\<forall>i<length R. s' ! i = ps ! i * step (forward (R ! i)))"
proof -
  let ?s1 = "fold (\<lambda>i s. s[i := ps ! i * step (forward (R ! i))]) [0..<length R] s"
  have s1: "\<forall>i<length R. ?s1 ! i = ps ! i * step (forward (R ! i))"
    using assms by (simp add: fold_update_upt_nth)
  show ?thesis
  proof (cases "length R < length pd")
    case True
    then have "compute_strides_intervals pd ps R s =
        Some (strides_down pd (length R) (length pd - 1 - length R) (?s1[length pd - 1 := 1]))"
      using assms by (simp add: compute_strides_intervals_def Let_def)
    moreover have "\<forall>i<length R. strides_down pd (length R) (length pd - 1 - length R)
        (?s1[length pd - 1 := 1]) ! i = ps ! i * step (forward (R ! i))"
      using True s1 by (simp add: strides_down_below)
    ultimately show ?thesis using assms by simp
  next
    case False
    then have "compute_strides_intervals pd ps R s = Some ?s1"
      using assms by (simp add: compute_strides_intervals_def Let_def)
    then show ?thesis using s1 assms by simp
  qed
qed

lemma compute_offset_sum:
  assumes "length ps = length pd" "length R \<le> length pd"
  shows "compute_offset pd po ps R = po + (\<Sum>i<length R. ps ! i * start (canon pd R i))"
proof (cases "pd = [] \<or> ps = [] \<or> R = []")
  case True
  then have "R = []" using assms by auto
  then show ?thesis by (simp add: compute_offset_def)
next
  case False
  then have "compute_offset pd po ps R =
      fold (\<lambda>i offset. offset + ps ! i * start (canon pd R i)) [0..<length R] po"
    using assms by (auto simp: compute_offset_def Let_def canon_def)
  then show ?thesis
    using fold_add_upt[of "\<lambda>i. ps ! i * start (canon pd R i)" 0 "length R" po]
    by (simp add: lessThan_atLeast0)
qed

lemma modulo_range: "0 < n \<Longrightarrow> 0 \<le> modulo a n \<and> modulo a n < n"
  by (simp add: modulo_def)

lemma compute_dims_ok:
  assumes "pd \<noteq> []" "length R \<le> length pd"
    and nd: "\<forall>i<length R. \<not> degenerate (canon pd R i)"
  shows "\<exists>d'. compute_dims pd R (replicate (length pd) 0) = (length pd, d') \<and>
           length d' = length pd \<and>
           (\<forall>i<length pd. d' ! i = (if i < length R then double_extent (canon pd R i) else pd ! i))"
proof -
  let ?d0 = "replicate (length pd) (0::int)"
  from nd have "\<forall>j. 0 \<le> j \<and> j < 0 + length R \<longrightarrow> \<not> degenerate (canon pd R j)" by simp
  from compute_dims_loop_Some[OF this, of ?d0] obtain d1 where
    d1: "compute_dims_loop pd R 0 (length R) ?d0 = Some d1" "length d1 = length pd"
        "\<forall>j<length pd. d1 ! j = (if j < length R then double_extent (canon pd R j) else ?d0 ! j)"
    by auto
  let ?d2 = "fold (\<lambda>i d. d[i := pd ! i]) [length R..<length pd] d1"
  have "compute_dims pd R ?d0 = (length pd, ?d2)"
    using assms(1,2) d1(1) by (auto simp: compute_dims_def Let_def)
  moreover have "\<forall>i<length pd. ?d2 ! i = (if i < length R then double_extent (canon pd R i) else pd ! i)"
    using d1(2,3) by (auto simp: fold_update_upt_nth)
  ultimately show ?thesis using d1(2) by simp
qed

lemma compute_dims_degenerate:
  assumes "pd \<noteq> []" "length R \<le> length pd"
    and "\<exists>i<length R. degenerate (canon pd R i)"
  shows "fst (compute_dims pd R (replicate (length pd) 0)) = 0"
proof -
  from assms(3) have "\<exists>j. 0 \<le> j \<and> j < 0 + length R \<and> degenerate (canon pd R j)" by simp
  from compute_dims_loop_None[OF this] show ?thesis
    using assms(1,2) by (auto simp: compute_dims_def Let_def)
qed

lemma slice_nonempty:
  assumes pos: "0 < numel pd" and len: "length ps = length pd" "length R \<le> length pd"
    and nd: "\<forall>i<length R. \<not> degenerate (canon pd R i)"
  shows "\<exists>h. Array_header_slice pd ps po R = Some h \<and> hdr_usable h \<and> hdr_is_subarray h \<and>
           length (hdr_dims h) = length pd \<and> length (hdr_strides h) = length pd \<and>
           (\<forall>i<length pd. hdr_dims h ! i = (if i < length R then double_extent (canon pd R i) else pd ! i)) \<and>
           (\<forall>i<length R. hdr_strides h ! i = ps ! i * step (canon pd R i)) \<and>
           hdr_offset h = po + (\<Sum>i<length R. ps ! i * start (canon pd R i)) \<and>
           hdr_count h = numel (hdr_dims h)"
proof -
  have ne: "pd \<noteq> []" using pos by (simp add: numel_pos_iff)
  from compute_dims_ok[OF ne len(2) nd] obtain d' where
    d': "compute_dims pd R (replicate (length pd) 0) = (length pd, d')" "length d' = length pd"
        "\<forall>i<length pd. d' ! i = (if i < length R then double_extent (canon pd R i) else pd ! i)"
    by blast
  from compute_strides_intervals_Some[OF len(1) _ ne len(2), of "replicate (length pd) 0"]
  obtain s' where
    s': "compute_strides_intervals pd ps R (replicate (length pd) 0) = Some s'"
        "length s' = length pd" "\<forall>i<length R. s' ! i = ps ! i * step (forward (R ! i))"
    by auto
  have "Array_header_slice pd ps po R =
      Some \<lparr>hdr_dims = d', hdr_strides = s', hdr_usable = True, hdr_count = numel d',
            hdr_offset = compute_offset pd po ps R, hdr_is_subarray = True\<rparr>"
    using pos ne d'(1) s'(1) by (simp add: Array_header_slice_def)
  then show ?thesis
    using d'(2,3) s'(2,3) compute_offset_sum[OF len]
    by (simp add: canon_def step_forward_modulo)
qed

lemma slice_degenerate:
  assumes pos: "0 < numel pd" and len: "length R \<le> length pd"
    and dg: "\<exists>i<length R. degenerate (canon pd R i)"
  shows "Array_header_slice pd ps po R = Some (header0\<lparr>hdr_is_subarray := True\<rparr>)"
proof -
  have ne: "pd \<noteq> []" using pos by (simp add: numel_pos_iff)
  from compute_dims_degenerate[OF ne len dg] show ?thesis
    using pos by (auto simp: Array_header_slice_def split: prod.splits)
qed

lemma list_all_pos_nth: "(\<forall>d\<in>set ds. (0::int) < d) \<longleftrightarrow> (\<forall>i<length ds. 0 < ds ! i)"
  by (simp add: all_set_conv_all_nth)

lemma compute_dims_positive:
  assumes pos: "0 < numel pd"
    and res: "compute_dims pd R (replicate (length pd) 0) = (n, d')" and n: "0 < n"
  shows "d' \<noteq> [] \<and> (\<forall>d\<in>set d'. 0 < d)"
proof -
  have ne: "pd \<noteq> []" and pp: "\<forall>i<length pd. 0 < pd ! i"
    using pos by (simp_all add: numel_pos_iff all_set_conv_all_nth)
  let ?k = "if length pd > length R then length R else length pd"
  let ?d0 = "replicate (length pd) (0::int)"
  show ?thesis
  proof (cases "\<exists>j. 0 \<le> j \<and> j < 0 + ?k \<and> degenerate (canon pd R j)")
    case True
    from compute_dims_loop_None[OF True, of ?d0] have "n = 0"
      using res ne by (auto simp: compute_dims_def Let_def)
    with n show ?thesis by simp
  next
    case False
    then have "\<forall>j. 0 \<le> j \<and> j < 0 + ?k \<longrightarrow> \<not> degenerate (canon pd R j)" by blast
    from compute_dims_loop_Some[OF this, of ?d0] obtain d1 where
      d1: "compute_dims_loop pd R 0 ?k ?d0 = Some d1" "length d1 = length pd"
          "\<forall>j<length pd. d1 ! j = (if j < ?k then double_extent (canon pd R j) else ?d0 ! j)"
      by auto
    have d'eq: "d' = fold (\<lambda>i d. d[i := pd ! i]) [?k..<length pd] d1"
      using res ne d1(1) by (auto simp: compute_dims_def Let_def)
    have len: "length d' = length pd" using d1(2) by (simp add: d'eq)
    have "\<forall>i<length d'. 0 < d' ! i"
    proof (intro allI impI)
      fix i assume i: "i < length d'"
      show "0 < d' ! i"
      proof (cases "i < ?k")
        case True
        then have "\<not> degenerate (canon pd R i)" using False by auto
        from double_extent_pos[OF this] show ?thesis
          using i len d1(2,3) True by (simp add: d'eq fold_update_upt_nth)
      next
        case False
        then show ?thesis using i len d1(2) pp by (simp add: d'eq fold_update_upt_nth)
      qed
    qed
    then show ?thesis using len ne by (auto simp: all_set_conv_all_nth)
  qed
qed

lemma slice_count:
  assumes "Array_header_slice pd ps po R = Some h" "hdr_usable h"
  shows "hdr_count h = prod_list (hdr_dims h) \<and> (\<forall>d\<in>set (hdr_dims h). 0 < d)"
proof -
  have pos: "0 < numel pd" using assms
    by (auto simp: Array_header_slice_def header0_def split: if_splits)
  obtain n d' where cd: "compute_dims pd R (replicate (length pd) 0) = (n, d')"
    by (cases "compute_dims pd R (replicate (length pd) 0)") auto
  have n: "0 < n" using assms pos cd
    by (auto simp: Array_header_slice_def header0_def split: if_splits)
  have "hdr_dims h = d'" "hdr_count h = numel d'" using assms pos cd n
    by (auto simp: Array_header_slice_def header0_def split: if_splits option.splits)
  with compute_dims_positive[OF pos cd n] show ?thesis by (simp add: numel_eq)
qed

lemma dims_count:
  "hdr_usable (Array_header_dims dims) \<Longrightarrow>
   hdr_dims (Array_header_dims dims) = dims \<and> hdr_count (Array_header_dims dims) = prod_list dims
   \<and> 0 < numel dims"
  by (auto simp: Array_header_dims_def Let_def header0_def numel_eq split: if_splits)

lemma omit_count:
  assumes "hdr_usable (Array_header_omit pd ax)"
  shows "hdr_count (Array_header_omit pd ax) = prod_list (hdr_dims (Array_header_omit pd ax))"
proof -
  have pos: "0 < numel pd" using assms
    by (auto simp: Array_header_omit_def header0_def split: if_splits)
  then have pp: "\<forall>d\<in>set pd. 0 < d" by (simp add: numel_pos_iff)
  let ?a = "nat (modulo ax (int (length pd)))"
  let ?d = "if length pd > 1 then take ?a pd @ drop (?a + 1) pd else [1]"
  have "\<forall>d\<in>set ?d. 0 < d" using pp by (auto dest: in_set_takeD in_set_dropD)
  moreover have "?d \<noteq> []" by (cases pd) (auto simp: drop_Cons' take_Cons')
  ultimately have "numel ?d = prod_list ?d" by (simp add: numel_eq)
  then show ?thesis using pos by (simp add: Array_header_omit_def Let_def)
qed

lemma order_count:
  assumes "Array_header_order pd ord = Some h" "hdr_usable h"
  shows "hdr_count h = prod_list (hdr_dims h)"
proof -
  have "0 < numel (hdr_dims h) \<and> hdr_count h = numel (hdr_dims h)" using assms
    by (auto simp: Array_header_order_def header0_def split: if_splits option.splits)
  then show ?thesis by (simp add: numel_eq split: if_splits)
qed

lemma grow_count:
  "hdr_usable (Array_header_grow pd c ax) \<Longrightarrow>
   hdr_count (Array_header_grow pd c ax) = prod_list (hdr_dims (Array_header_grow pd c ax))"
  by (auto simp: Array_header_grow_def Let_def header0_def numel_eq split: if_splits)

lemma dims_row_major:
  assumes "hdr_usable (Array_header_dims dims)"
  shows "\<not> hdr_is_subarray (Array_header_dims dims) \<and> hdr_offset (Array_header_dims dims) = 0
    \<and> length (hdr_strides (Array_header_dims dims)) = length dims
    \<and> hdr_strides (Array_header_dims dims) ! (length dims - 1) = 1
    \<and> (\<forall>i. i + 1 < length dims \<longrightarrow>
          hdr_strides (Array_header_dims dims) ! i =
          hdr_strides (Array_header_dims dims) ! (i + 1) * dims ! (i + 1))"
proof -
  have pos: "0 < numel dims" using assms by (simp add: dims_count)
  then have ne: "dims \<noteq> []" by (simp add: numel_pos_iff)
  have st: "hdr_strides (Array_header_dims dims) = compute_strides dims (replicate (length dims) 0)"
    and rest: "\<not> hdr_is_subarray (Array_header_dims dims)" "hdr_offset (Array_header_dims dims) = 0"
    using pos by (simp_all add: Array_header_dims_def Let_def)
  show ?thesis
    using compute_strides_row_major[of "replicate (length dims) 0" dims, OF _ ne] rest
    by (simp add: st)
qed

lemma canon_span:
  assumes "0 < pd ! i"
  shows "0 \<le> start (canon pd R i)" and "start (canon pd R i) < pd ! i"
    and "0 \<le> stop (canon pd R i)" and "stop (canon pd R i) < pd ! i"
  using assms by (simp_all add: canon_def forward_def modulo_interval_def modulo_def)

text \<open>
  The slice layout where double precision is exact. For a non-empty parent layout whose
  dimensions on the specified axes are below \<open>2^53\<close>, and at most as many intervals as the
  parent has axes: every interval is wrapped into \<open>[0, dims[i])\<close> and then canonicalised by
  \<open>forward\<close>; when every canonical interval \<open>{s, e, t}\<close> has \<open>s \<le> e\<close> and \<open>t > 0\<close>, the slice
  layout is not empty, is a view, has \<open>dims[i] = ceil((e - s + 1) / t)\<close> and
  \<open>strides[i] = P.strides[i] * t\<close> on the specified axes, the parent's dimension on the
  unspecified trailing axes, and \<open>offset = P.offset + sum of P.strides[i] * s\<close>; when some
  canonical interval has \<open>s > e\<close>, the slice layout is empty.
\<close>

lemma slice_layout_bounded:
  assumes "0 < numel pd" and "length ps = length pd" and "length R \<le> length pd"
    and "\<forall>i<length R. pd ! i < 2 ^ 53"
  shows "(\<forall>i<length R.
            0 \<le> start (modulo_interval (R ! i) (pd ! i)) \<and>
            start (modulo_interval (R ! i) (pd ! i)) < pd ! i \<and>
            0 \<le> stop (modulo_interval (R ! i) (pd ! i)) \<and>
            stop (modulo_interval (R ! i) (pd ! i)) < pd ! i \<and>
            canon pd R i = forward (modulo_interval (R ! i) (pd ! i)))
       \<and> ((\<forall>i<length R. start (canon pd R i) \<le> stop (canon pd R i) \<and> 0 < step (canon pd R i)) \<longrightarrow>
            (\<exists>h. Array_header_slice pd ps po R = Some h \<and> \<not> hdr_empty h \<and> hdr_is_subarray h \<and>
                 length (hdr_dims h) = length pd \<and>
                 (\<forall>i<length R.
                    hdr_dims h ! i =
                      \<lceil>(real_of_int (stop (canon pd R i) - start (canon pd R i)) + 1) /
                        real_of_int (step (canon pd R i))\<rceil> \<and>
                    hdr_strides h ! i = ps ! i * step (canon pd R i)) \<and>
                 (\<forall>i. length R \<le> i \<and> i < length pd \<longrightarrow> hdr_dims h ! i = pd ! i) \<and>
                 hdr_offset h = po + (\<Sum>i<length R. ps ! i * start (canon pd R i))))
       \<and> ((\<exists>i<length R. stop (canon pd R i) < start (canon pd R i)) \<longrightarrow>
            (\<exists>h. Array_header_slice pd ps po R = Some h \<and> hdr_empty h))"
proof (intro conjI)
  show "\<forall>i<length R.
            0 \<le> start (modulo_interval (R ! i) (pd ! i)) \<and>
            start (modulo_interval (R ! i) (pd ! i)) < pd ! i \<and>
            0 \<le> stop (modulo_interval (R ! i) (pd ! i)) \<and>
            stop (modulo_interval (R ! i) (pd ! i)) < pd ! i \<and>
            canon pd R i = forward (modulo_interval (R ! i) (pd ! i))"
  proof (intro allI impI)
    fix i assume i: "i < length R"
    then have "i < length pd" using assms(3) by simp
    then have "0 < pd ! i" using assms(1) by (simp add: numel_pos_iff all_set_conv_all_nth)
    then show "0 \<le> start (modulo_interval (R ! i) (pd ! i)) \<and>
            start (modulo_interval (R ! i) (pd ! i)) < pd ! i \<and>
            0 \<le> stop (modulo_interval (R ! i) (pd ! i)) \<and>
            stop (modulo_interval (R ! i) (pd ! i)) < pd ! i \<and>
            canon pd R i = forward (modulo_interval (R ! i) (pd ! i))"
      by (simp add: modulo_interval_def modulo_def canon_def)
  qed
next
  show "(\<forall>i<length R. start (canon pd R i) \<le> stop (canon pd R i) \<and> 0 < step (canon pd R i)) \<longrightarrow>
            (\<exists>h. Array_header_slice pd ps po R = Some h \<and> \<not> hdr_empty h \<and> hdr_is_subarray h \<and>
                 length (hdr_dims h) = length pd \<and>
                 (\<forall>i<length R.
                    hdr_dims h ! i =
                      \<lceil>(real_of_int (stop (canon pd R i) - start (canon pd R i)) + 1) /
                        real_of_int (step (canon pd R i))\<rceil> \<and>
                    hdr_strides h ! i = ps ! i * step (canon pd R i)) \<and>
                 (\<forall>i. length R \<le> i \<and> i < length pd \<longrightarrow> hdr_dims h ! i = pd ! i) \<and>
                 hdr_offset h = po + (\<Sum>i<length R. ps ! i * start (canon pd R i)))"
  proof
  assume nd0: "\<forall>i<length R. start (canon pd R i) \<le> stop (canon pd R i) \<and> 0 < step (canon pd R i)"
  then have nd: "\<forall>i<length R. \<not> degenerate (canon pd R i)"
    by (auto simp: degenerate_def)
  have ex: "\<forall>i<length R. double_extent (canon pd R i) = extent (canon pd R i)"
  proof (intro allI impI)
    fix i assume i: "i < length R"
    then have "i < length pd" using assms(3) by simp
    then have p: "0 < pd ! i" using assms(1) by (simp add: numel_pos_iff all_set_conv_all_nth)
    have "stop (canon pd R i) - start (canon pd R i) + 1 \<le> pd ! i"
      using canon_span[OF p, of R] by linarith
    moreover have "pd ! i < 2 ^ 53" using assms(4) i by simp
    ultimately have "stop (canon pd R i) - start (canon pd R i) + 1 < 2 ^ 53" by linarith
    then show "double_extent (canon pd R i) = extent (canon pd R i)"
      using nd0 i by (intro double_extent_exact) simp_all
  qed
  from slice_nonempty[OF assms(1,2,3) nd, of po] obtain h where
    h: "Array_header_slice pd ps po R = Some h" "hdr_usable h" "hdr_is_subarray h"
       "length (hdr_dims h) = length pd"
       "\<forall>i<length pd. hdr_dims h ! i = (if i < length R then double_extent (canon pd R i) else pd ! i)"
       "\<forall>i<length R. hdr_strides h ! i = ps ! i * step (canon pd R i)"
       "hdr_offset h = po + (\<Sum>i<length R. ps ! i * start (canon pd R i))"
    by blast
  have "\<forall>i<length R. hdr_dims h ! i =
          \<lceil>(real_of_int (stop (canon pd R i) - start (canon pd R i)) + 1) /
            real_of_int (step (canon pd R i))\<rceil>"
    using h(5) assms(3) ex by (auto simp: extent_def)
  moreover have "\<forall>i. length R \<le> i \<and> i < length pd \<longrightarrow> hdr_dims h ! i = pd ! i"
    using h(5) by auto
  ultimately show "\<exists>h. Array_header_slice pd ps po R = Some h \<and> \<not> hdr_empty h \<and> hdr_is_subarray h \<and>
       length (hdr_dims h) = length pd \<and>
       (\<forall>i<length R.
          hdr_dims h ! i =
            \<lceil>(real_of_int (stop (canon pd R i) - start (canon pd R i)) + 1) /
              real_of_int (step (canon pd R i))\<rceil> \<and>
          hdr_strides h ! i = ps ! i * step (canon pd R i)) \<and>
       (\<forall>i. length R \<le> i \<and> i < length pd \<longrightarrow> hdr_dims h ! i = pd ! i) \<and>
       hdr_offset h = po + (\<Sum>i<length R. ps ! i * start (canon pd R i))"
    using h(1,2,3,4,6,7) by (auto simp: hdr_empty_def)
  qed
next
  show "(\<exists>i<length R. stop (canon pd R i) < start (canon pd R i)) \<longrightarrow>
            (\<exists>h. Array_header_slice pd ps po R = Some h \<and> hdr_empty h)"
  proof
    assume "\<exists>i<length R. stop (canon pd R i) < start (canon pd R i)"
    then have "\<exists>i<length R. degenerate (canon pd R i)" by (auto simp: degenerate_def)
    from slice_degenerate[OF assms(1,3) this, of ps po]
    show "\<exists>h. Array_header_slice pd ps po R = Some h \<and> hdr_empty h"
      by (simp add: hdr_empty_def header0_def)
  qed
qed

text \<open>
  The interval \<open>{-4, 3, 2}\<close> on an axis of 5 wraps to \<open>{1, 3, 2}\<close>: two elements, stride 2,
  offset 1. The interval \<open>{3, 1, 1}\<close> stays degenerate and gives the empty layout.
\<close>

lemma slice_layout_bounded_example:
  "(\<exists>h. Array_header_slice [5] [1] 0 [\<lparr>start = - 4, stop = 3, step = 2\<rparr>] = Some h \<and>
        \<not> hdr_empty h \<and> hdr_dims h ! 0 = 2 \<and> hdr_strides h ! 0 = 2 \<and> hdr_offset h = 1)
   \<and> (\<exists>h. Array_header_slice [5] [1] 0 [\<lparr>start = 3, stop = 1, step = 1\<rparr>] = Some h \<and> hdr_empty h)"
  using slice_layout_bounded[of "[5]" "[1]" "[\<lparr>start = - 4, stop = 3, step = 2\<rparr>]" 0]
        slice_layout_bounded[of "[5]" "[1]" "[\<lparr>start = 3, stop = 1, step = 1\<rparr>]" 0]
  by (auto simp: numel_def canon_def forward_def modulo_interval_def modulo_def)

text \<open>
  C1. The slicing constructor computes the extent \<open>ceil((e - s + 1) / t)\<close> of its
  documentation in double precision. For the parent dimension \<open>2^53 + 2\<close> and the interval
  \<open>{0, 2^53 + 1, 1}\<close>, whose canonical interval is the interval itself, the formula gives
  \<open>2^53 + 2\<close>; the constructor stores the dimension \<open>2^53\<close> and the count \<open>2^53\<close>, because
  \<open>e - s\<close> and then \<open>e - s + 1.0\<close> are rounded to doubles.
\<close>

theorem slice_extent_defect:
  "Array_header_slice [9007199254740994] [1] 0
      [\<lparr>start = 0, stop = 9007199254740993, step = 1\<rparr>]
     = Some \<lparr>hdr_dims = [9007199254740992], hdr_strides = [1], hdr_usable = True,
             hdr_count = 9007199254740992, hdr_offset = 0, hdr_is_subarray = True\<rparr>
   \<and> canon [9007199254740994] [\<lparr>start = 0, stop = 9007199254740993, step = 1\<rparr>] 0
       = \<lparr>start = 0, stop = 9007199254740993, step = 1\<rparr>
   \<and> extent (canon [9007199254740994] [\<lparr>start = 0, stop = 9007199254740993, step = 1\<rparr>] 0)
       = 9007199254740994"
  by code_simp

lemma subs2ind_sum:
  assumes len: "length strides = length dims"
  shows "subs2ind offset strides dims subs =
         offset + (\<Sum>i<length dims. strides ! i * (pad_subs (length dims) subs ! i mod dims ! i))"
proof (cases "strides = [] \<or> dims = [] \<or> subs = []")
  case True
  show ?thesis
  proof (cases "subs = []")
    case True
    then show ?thesis by (simp add: subs2ind_def pad_subs_def)
  next
    case False
    with True len have "dims = []" by auto
    then show ?thesis using len by (simp add: subs2ind_def)
  qed
next
  case False
  let ?n = "length dims"
  let ?ni = "?n - length subs"
  let ?g = "\<lambda>i. strides ! i * (subs ! (i - ?ni) mod dims ! i)"
  have ni: "length strides - (if (if length strides > length dims then length dims else length strides) > length subs
              then length subs
              else (if length strides > length dims then length dims else length strides)) = ?ni"
    using len by auto
  have "subs2ind offset strides dims subs = fold (\<lambda>i ind. ind + ?g i) [?ni..<?n] offset"
    using False len unfolding subs2ind_def Let_def ni by (simp add: modulo_def)
  also have "\<dots> = offset + (\<Sum>i = ?ni..<?n. ?g i)"
    using fold_add_upt[of ?g ?ni "?n - ?ni" offset] by simp
  also have "(\<Sum>i = ?ni..<?n. ?g i) =
             (\<Sum>i = ?ni..<?n. strides ! i * (pad_subs ?n subs ! i mod dims ! i))"
    by (rule sum.cong) (auto simp: pad_subs_def nth_append)
  also have "\<dots> = (\<Sum>i<?n. strides ! i * (pad_subs ?n subs ! i mod dims ! i))"
  proof -
    have "(\<Sum>i<?n. strides ! i * (pad_subs ?n subs ! i mod dims ! i)) =
          (\<Sum>i = 0..<?ni. strides ! i * (pad_subs ?n subs ! i mod dims ! i)) +
          (\<Sum>i = ?ni..<?n. strides ! i * (pad_subs ?n subs ! i mod dims ! i))"
      by (simp add: lessThan_atLeast0 sum.atLeastLessThan_concat)
    moreover have "(\<Sum>i = 0..<?ni. strides ! i * (pad_subs ?n subs ! i mod dims ! i)) = 0"
      by (rule sum.neutral) (auto simp: pad_subs_def nth_append)
    ultimately show ?thesis by simp
  qed
  finally show ?thesis .
qed

text \<open>
  C2. Element access resolves to the flat position
  \<open>offset + sum of strides[i] * (s[i] mod dims[i])\<close> over the axes of the layout, where the
  subscript tuple is padded with zeros in front when it is shorter than the rank (so the
  given subscripts address the trailing axes) and subscripts beyond the rank are ignored;
  each wrapped subscript lies in \<open>[0, dims[i])\<close>, also when the subscript is negative.
\<close>

theorem element_access_position:
  assumes "length (hdr_strides (arr_hdr arr)) = length (hdr_dims (arr_hdr arr))"
  shows "subs2ind (hdr_offset (arr_hdr arr)) (hdr_strides (arr_hdr arr)) (hdr_dims (arr_hdr arr)) subs =
           hdr_offset (arr_hdr arr) +
           (\<Sum>i<length (hdr_dims (arr_hdr arr)).
               hdr_strides (arr_hdr arr) ! i *
               (pad_subs (length (hdr_dims (arr_hdr arr))) subs ! i mod hdr_dims (arr_hdr arr) ! i))
       \<and> elem_at h arr subs =
           h ! the (arr_buffsp arr) !
             nat (hdr_offset (arr_hdr arr) +
                  (\<Sum>i<length (hdr_dims (arr_hdr arr)).
                      hdr_strides (arr_hdr arr) ! i *
                      (pad_subs (length (hdr_dims (arr_hdr arr))) subs ! i mod hdr_dims (arr_hdr arr) ! i)))
       \<and> (\<forall>i<length (hdr_dims (arr_hdr arr)). 0 < hdr_dims (arr_hdr arr) ! i \<longrightarrow>
             0 \<le> pad_subs (length (hdr_dims (arr_hdr arr))) subs ! i mod hdr_dims (arr_hdr arr) ! i \<and>
             pad_subs (length (hdr_dims (arr_hdr arr))) subs ! i mod hdr_dims (arr_hdr arr) ! i
               < hdr_dims (arr_hdr arr) ! i)
       \<and> pad_subs (length (hdr_dims (arr_hdr arr))) subs =
           replicate (length (hdr_dims (arr_hdr arr)) - length subs) 0 @ subs"
  using subs2ind_sum[OF assms, of "hdr_offset (arr_hdr arr)" subs]
  by (simp add: elem_at_def pad_subs_def)

text \<open>
  On the layout \<open>{3, 1, 2}\<close> the subscripts \<open>{-1, 7, 1, 9}\<close> address position 5 (the fourth
  subscript is ignored) and the single subscript \<open>{-1}\<close> addresses position 1.
\<close>

theorem element_access_position_witness:
  "elem_at [[10, 11, 12, 13, 14, 15 :: int]]
     \<lparr>arr_hdr = \<lparr>hdr_dims = [3, 1, 2], hdr_strides = [2, 2, 1], hdr_usable = True, hdr_count = 6,
                 hdr_offset = 0, hdr_is_subarray = False\<rparr>, arr_buffsp = Some 0\<rparr> [- 1, 7, 1, 9] = 15
   \<and> elem_at [[10, 11, 12, 13, 14, 15 :: int]]
     \<lparr>arr_hdr = \<lparr>hdr_dims = [3, 1, 2], hdr_strides = [2, 2, 1], hdr_usable = True, hdr_count = 6,
                 hdr_offset = 0, hdr_is_subarray = False\<rparr>, arr_buffsp = Some 0\<rparr> [- 1] = 11"
  using element_access_position[of
      "\<lparr>arr_hdr = \<lparr>hdr_dims = [3, 1, 2], hdr_strides = [2, 2, 1], hdr_usable = True, hdr_count = 6,
                 hdr_offset = 0, hdr_is_subarray = False\<rparr>, arr_buffsp = Some 0\<rparr>"
      "[- 1, 7, 1, 9]" "[[10, 11, 12, 13, 14, 15 :: int]]"]
    element_access_position[of
      "\<lparr>arr_hdr = \<lparr>hdr_dims = [3, 1, 2], hdr_strides = [2, 2, 1], hdr_usable = True, hdr_count = 6,
                 hdr_offset = 0, hdr_is_subarray = False\<rparr>, arr_buffsp = Some 0\<rparr>"
      "[- 1]" "[[10, 11, 12, 13, 14, 15 :: int]]"]
  by (simp add: pad_subs_def lessThan_nat_numeral lessThan_Suc nth_append)

text \<open>
  C8. Every non-empty layout that a constructor of \<open>Array_header\<close> produces (from a shape,
  by slicing, by omitting an axis, by reordering the axes, by growing an axis) has a count
  equal to the product of its dimensions; and the non-empty layout built from a shape is
  not a view and is row-major: the last stride is 1 and
  \<open>strides[i] = strides[i + 1] * dims[i + 1]\<close>.
\<close>

theorem layout_count_product:
  "(hdr_usable (Array_header_dims dims) \<longrightarrow>
      hdr_count (Array_header_dims dims) = prod_list (hdr_dims (Array_header_dims dims)))
   \<and> (Array_header_slice pd ps po R = Some h1 \<and> hdr_usable h1 \<longrightarrow>
      hdr_count h1 = prod_list (hdr_dims h1))
   \<and> (hdr_usable (Array_header_omit pd1 omitted_axis) \<longrightarrow>
      hdr_count (Array_header_omit pd1 omitted_axis) =
        prod_list (hdr_dims (Array_header_omit pd1 omitted_axis)))
   \<and> (Array_header_order pd2 new_order = Some h2 \<and> hdr_usable h2 \<longrightarrow>
      hdr_count h2 = prod_list (hdr_dims h2))
   \<and> (hdr_usable (Array_header_grow pd3 c axis) \<longrightarrow>
      hdr_count (Array_header_grow pd3 c axis) = prod_list (hdr_dims (Array_header_grow pd3 c axis)))
   \<and> (hdr_usable (Array_header_dims dims) \<longrightarrow>
      \<not> hdr_is_subarray (Array_header_dims dims) \<and>
      hdr_dims (Array_header_dims dims) = dims \<and>
      length (hdr_strides (Array_header_dims dims)) = length dims \<and>
      hdr_strides (Array_header_dims dims) ! (length dims - 1) = 1 \<and>
      (\<forall>i. i + 1 < length dims \<longrightarrow>
         hdr_strides (Array_header_dims dims) ! i =
         hdr_strides (Array_header_dims dims) ! (i + 1) * dims ! (i + 1)))"
  using dims_count[of dims] slice_count[of pd ps po R h1] omit_count[of pd1 omitted_axis]
    order_count[of pd2 new_order h2] grow_count[of pd3 c axis] dims_row_major[of dims]
  by simp

lemma ev1: "Array_header_dims [2, 3] = \<lparr>hdr_dims = [2, 3], hdr_strides = [3, 1], hdr_usable = True, hdr_count = 6, hdr_offset = 0, hdr_is_subarray = False\<rparr>"
  by code_simp

lemma ev2: "Array_header_slice [5] [1] 0 [\<lparr>start = - 4, stop = 3, step = 2\<rparr>] =
  Some \<lparr>hdr_dims = [2], hdr_strides = [2], hdr_usable = True, hdr_count = 2, hdr_offset = 1, hdr_is_subarray = True\<rparr>"
  by code_simp

lemma ev3: "Array_header_omit [3, 1, 2] 0 = \<lparr>hdr_dims = [1, 2], hdr_strides = [2, 1], hdr_usable = True, hdr_count = 2, hdr_offset = 0, hdr_is_subarray = False\<rparr>"
  by code_simp

lemma ev4: "Array_header_order [4, 2, 3, 2] [2, 0, 1, 3] = Some \<lparr>hdr_dims = [3, 4, 2, 2], hdr_strides = [16, 4, 2, 1], hdr_usable = True, hdr_count = 48, hdr_offset = 0, hdr_is_subarray = False\<rparr>"
  by code_simp

lemma ev5: "Array_header_grow [2, 2, 3] 2 1 = \<lparr>hdr_dims = [2, 4, 3], hdr_strides = [12, 3, 1], hdr_usable = True, hdr_count = 24, hdr_offset = 0, hdr_is_subarray = False\<rparr>"
  by code_simp

text \<open>One non-empty layout of each constructor.\<close>

theorem layout_count_product_witness:
  "hdr_usable (Array_header_dims [2, 3]) \<and> hdr_count (Array_header_dims [2, 3]) = 6
   \<and> hdr_strides (Array_header_dims [2, 3]) ! 1 = 1
   \<and> hdr_strides (Array_header_dims [2, 3]) ! 0 = hdr_strides (Array_header_dims [2, 3]) ! 1 * 3
   \<and> (\<exists>h. Array_header_slice [5] [1] 0 [\<lparr>start = - 4, stop = 3, step = 2\<rparr>] = Some h \<and>
           hdr_usable h \<and> hdr_count h = prod_list (hdr_dims h))
   \<and> hdr_usable (Array_header_omit [3, 1, 2] 0)
   \<and> hdr_count (Array_header_omit [3, 1, 2] 0) = prod_list (hdr_dims (Array_header_omit [3, 1, 2] 0))
   \<and> (\<exists>h. Array_header_order [4, 2, 3, 2] [2, 0, 1, 3] = Some h \<and>
           hdr_usable h \<and> hdr_count h = prod_list (hdr_dims h))
   \<and> hdr_usable (Array_header_grow [2, 2, 3] 2 1)
   \<and> hdr_count (Array_header_grow [2, 2, 3] 2 1) = prod_list (hdr_dims (Array_header_grow [2, 2, 3] 2 1))"
  using layout_count_product[where dims = "[2, 3]" and pd = "[5]" and ps = "[1]" and po = 0
      and R = "[\<lparr>start = - 4, stop = 3, step = 2\<rparr>]"
      and ?h1.0 = "\<lparr>hdr_dims = [2], hdr_strides = [2], hdr_usable = True, hdr_count = 2,
        hdr_offset = 1, hdr_is_subarray = True\<rparr>"
      and ?pd1.0 = "[3, 1, 2]" and omitted_axis = 0
      and ?pd2.0 = "[4, 2, 3, 2]" and new_order = "[2, 0, 1, 3]"
      and ?h2.0 = "\<lparr>hdr_dims = [3, 4, 2, 2], hdr_strides = [16, 4, 2, 1], hdr_usable = True,
        hdr_count = 48, hdr_offset = 0, hdr_is_subarray = False\<rparr>"
      and ?pd3.0 = "[2, 2, 3]" and c = 2 and axis = 1]
  by (simp add: ev1 ev2 ev3 ev4 ev5)

text \<open>
  C3. The reordering constructor wraps \<open>new_order[i]\<close> by the dimension \<open>previous_dims[i]\<close>
  and not by the rank. On the shape \<open>{2, 1}\<close> the identity order \<open>{0, 1}\<close> reads the
  parent's dimension 0 for both axes, the counts differ and the layout is empty, so
  \<open>transpose\<close> returns the empty array; the shape \<open>{1, 2}\<close> with the order \<open>{1, 0}\<close> fails
  in the same way.
\<close>

theorem transpose_header_defect:
  "Array_header_order [2, 1] [0, 1] = Some header0
   \<and> Array_header_order [1, 2] [1, 0] = Some header0
   \<and> (case Array_data [] [2, 1] [7, 8 :: int] of (a, h) \<Rightarrow> transpose h a [0, 1] 0)
       = Some (Array0, [[7, 8]])"
  by code_simp

lemma odo_pos_append:
  "odo_pos (A @ B) mx s = odo_pos A mx s + odo_cnt A mx * odo_pos B mx s"
  by (induction A) (auto simp: odo_cnt_def algebra_simps)

lemma odo_cnt_append: "odo_cnt (A @ B) mx = odo_cnt A mx * odo_cnt B mx"
  by (simp add: odo_cnt_def)

lemma odo_pos_cong:
  "(\<forall>i\<in>set L. s ! i = s' ! i) \<Longrightarrow> odo_pos L mx s = odo_pos L mx s'"
  by (induction L) auto

lemma odo_pos_bounds:
  "(\<forall>i\<in>set L. 0 \<le> s ! i \<and> s ! i < mx ! i) \<Longrightarrow>
   0 \<le> odo_pos L mx s \<and> odo_pos L mx s < odo_cnt L mx"
proof (induction L)
  case Nil
  then show ?case by (simp add: odo_cnt_def)
next
  case (Cons i L)
  then have ih: "0 \<le> odo_pos L mx s" "odo_pos L mx s < odo_cnt L mx" by auto
  have i: "0 \<le> s ! i" "s ! i < mx ! i" using Cons.prems by auto
  have "mx ! i * odo_pos L mx s \<le> mx ! i * (odo_cnt L mx - 1)"
    using ih i by (intro mult_left_mono) auto
  then have "s ! i + mx ! i * odo_pos L mx s < mx ! i * odo_cnt L mx"
    using i by (simp add: algebra_simps)
  moreover have "0 \<le> mx ! i * odo_pos L mx s" using ih i by simp
  ultimately show ?case using i by (simp add: odo_cnt_def)
qed

lemma odo_cnt_pos: "(\<forall>i\<in>set L. 0 < mx ! i) \<Longrightarrow> 0 < odo_cnt L mx"
  by (induction L) (auto simp: odo_cnt_def)

lemma odo_pos_inj:
  "(\<forall>i\<in>set L. 0 \<le> s ! i \<and> s ! i < mx ! i) \<Longrightarrow>
   (\<forall>i\<in>set L. 0 \<le> s' ! i \<and> s' ! i < mx ! i) \<Longrightarrow>
   odo_pos L mx s = odo_pos L mx s' \<Longrightarrow> (\<forall>i\<in>set L. s ! i = s' ! i)"
proof (induction L)
  case Nil
  then show ?case by simp
next
  case (Cons i L)
  let ?m = "mx ! i"
  have m: "0 < ?m" using Cons.prems(1) by auto
  have eq: "s ! i + ?m * odo_pos L mx s = s' ! i + ?m * odo_pos L mx s'"
    using Cons.prems(3) by simp
  have "(s ! i + ?m * odo_pos L mx s) mod ?m = s ! i" using Cons.prems(1) by simp
  moreover have "(s' ! i + ?m * odo_pos L mx s') mod ?m = s' ! i" using Cons.prems(2) by simp
  ultimately have si: "s ! i = s' ! i" using eq by simp
  with eq m have "odo_pos L mx s = odo_pos L mx s'" by simp
  with Cons.IH Cons.prems si show ?case by auto
qed

lemma increment_subscript_eq:
  assumes "i < length (it_subs it)" "it_minimum_excluded it ! i = - 1"
    "it_subs it ! i < it_maximum_excluded it ! i"
  shows "increment_subscript i major it =
     (if it_subs it ! i + 1 = it_maximum_excluded it ! i
      then (True, it\<lparr>it_subs := (it_subs it)[i := (if i \<noteq> major then 0 else it_subs it ! i + 1)]\<rparr>)
      else (False, it\<lparr>it_subs := (it_subs it)[i := it_subs it ! i + 1]\<rparr>))"
  using assms by (auto simp: increment_subscript_def Let_def)

lemma increment_while_step:
  assumes "L \<noteq> []" "distinct L"
    and "\<forall>i\<in>set L. i < length (it_subs it) \<and> it_minimum_excluded it ! i = - 1 \<and>
           0 \<le> it_subs it ! i \<and> it_subs it ! i < it_maximum_excluded it ! i"
  shows "\<exists>s'. increment_while L (last L) it = it\<lparr>it_subs := s'\<rparr> \<and>
           length s' = length (it_subs it) \<and>
           (\<forall>j. j \<notin> set L \<longrightarrow> s' ! j = it_subs it ! j) \<and>
           odo_pos L (it_maximum_excluded it) s' = odo_pos L (it_maximum_excluded it) (it_subs it) + 1 \<and>
           (\<forall>i\<in>set (butlast L). 0 \<le> s' ! i \<and> s' ! i < it_maximum_excluded it ! i) \<and>
           0 \<le> s' ! last L \<and> s' ! last L \<le> it_maximum_excluded it ! last L"
  using assms
proof (induction L arbitrary: it)
  case Nil
  then show ?case by simp
next
  case (Cons i L)
  let ?s = "it_subs it"
  let ?mx = "it_maximum_excluded it"
  have i: "i < length ?s" "it_minimum_excluded it ! i = - 1" "0 \<le> ?s ! i" "?s ! i < ?mx ! i"
    using Cons.prems(3) by auto
  show ?case
  proof (cases "L = []")
    case True
    let ?s' = "?s[i := ?s ! i + 1]"
    have "increment_while (i # L) (last (i # L)) it = it\<lparr>it_subs := ?s'\<rparr>"
      using True i by (simp add: increment_subscript_eq)
    then show ?thesis using True i by (intro exI[of _ ?s']) auto
  next
    case False
    then have lst: "last (i # L) = last L" by simp
    have ne: "i \<noteq> last L" using Cons.prems(2) False by auto
    show ?thesis
    proof (cases "?s ! i + 1 = ?mx ! i")
      case carry: True
      let ?it2 = "it\<lparr>it_subs := ?s[i := 0]\<rparr>"
      have step: "increment_subscript i (last L) it = (True, ?it2)"
        using i carry ne by (simp add: increment_subscript_eq)
      have pre: "\<forall>j\<in>set L. j < length (it_subs ?it2) \<and> it_minimum_excluded ?it2 ! j = - 1 \<and>
           0 \<le> it_subs ?it2 ! j \<and> it_subs ?it2 ! j < it_maximum_excluded ?it2 ! j"
        using Cons.prems(2,3) by (auto simp: nth_list_update)
      from Cons.IH[OF False _ pre] Cons.prems(2) obtain s' where
        s': "increment_while L (last L) ?it2 = ?it2\<lparr>it_subs := s'\<rparr>"
            "length s' = length ?s"
            "\<forall>j. j \<notin> set L \<longrightarrow> s' ! j = (?s[i := 0]) ! j"
            "odo_pos L ?mx s' = odo_pos L ?mx (?s[i := 0]) + 1"
            "\<forall>j\<in>set (butlast L). 0 \<le> s' ! j \<and> s' ! j < ?mx ! j"
            "0 \<le> s' ! last L" "s' ! last L \<le> ?mx ! last L"
        by auto
      have si: "s' ! i = 0" using s'(3) Cons.prems(2) i by simp
      have oth0: "\<forall>j. j \<noteq> i \<longrightarrow> (?s[i := 0]) ! j = ?s ! j" by simp
      have "odo_pos L ?mx (?s[i := 0]) = odo_pos L ?mx ?s"
        using Cons.prems(2) i(1) by (intro odo_pos_cong) (auto simp: nth_list_update)
      then have pos: "odo_pos (i # L) ?mx s' = odo_pos (i # L) ?mx ?s + 1"
        using s'(4) si carry by (simp add: algebra_simps)
      have whole: "increment_while (i # L) (last (i # L)) it = it\<lparr>it_subs := s'\<rparr>"
        using step s'(1) lst by simp
      have oth: "\<forall>j. j \<notin> set (i # L) \<longrightarrow> s' ! j = ?s ! j"
        using s'(3) oth0 by auto
      have inner: "\<forall>j\<in>set (butlast (i # L)). 0 \<le> s' ! j \<and> s' ! j < ?mx ! j"
        using s'(5) si i False by auto
      show ?thesis
        using False whole s'(2) oth pos inner s'(6,7) by (intro exI[of _ s']) simp
    next
      case nocarry: False
      let ?s' = "?s[i := ?s ! i + 1]"
      have "increment_while (i # L) (last (i # L)) it = it\<lparr>it_subs := ?s'\<rparr>"
        using i nocarry by (simp add: increment_subscript_eq)
      moreover have "odo_pos L ?mx ?s' = odo_pos L ?mx ?s"
        using Cons.prems(2) i(1) by (intro odo_pos_cong) (auto simp: nth_list_update)
      moreover have "\<forall>j\<in>set (butlast (i # L)). 0 \<le> ?s' ! j \<and> ?s' ! j < ?mx ! j"
        using Cons.prems(3) i nocarry False
        by (auto simp: nth_list_update dest: in_set_butlastD)
      moreover have "0 \<le> ?s' ! last L \<and> ?s' ! last L \<le> ?mx ! last L"
        using Cons.prems(3) ne False by (auto simp: less_imp_le nth_list_update)
      ultimately show ?thesis using False i by (intro exI[of _ ?s']) (auto simp: nth_list_update)
    qed
  qed
qed

lemma odo_weak_lt:
  assumes "L \<noteq> []"
    and inner: "\<forall>i\<in>set (butlast L). 0 \<le> s ! i \<and> s ! i < mx ! i"
    and lst: "0 \<le> s ! last L" "s ! last L \<le> mx ! last L"
  shows "odo_pos L mx s < odo_cnt L mx \<longleftrightarrow> s ! last L < mx ! last L"
proof -
  let ?I = "butlast L" and ?m = "last L"
  have L: "L = ?I @ [?m]" using assms(1) by simp
  have pos: "odo_pos L mx s = odo_pos ?I mx s + odo_cnt ?I mx * s ! ?m"
    using odo_pos_append[of ?I "[?m]" mx s] L by simp
  have cnt: "odo_cnt L mx = odo_cnt ?I mx * mx ! ?m"
    using odo_cnt_append[of ?I "[?m]" mx] L by (simp add: odo_cnt_def)
  from odo_pos_bounds[OF inner] have b: "0 \<le> odo_pos ?I mx s" "odo_pos ?I mx s < odo_cnt ?I mx"
    by auto
  show ?thesis
  proof
    assume "odo_pos L mx s < odo_cnt L mx"
    show "s ! ?m < mx ! ?m"
    proof (rule ccontr)
      assume "\<not> s ! ?m < mx ! ?m"
      then have "s ! ?m = mx ! ?m" using lst by simp
      then have "odo_cnt L mx \<le> odo_pos L mx s" using b by (simp add: pos cnt)
      with \<open>odo_pos L mx s < odo_cnt L mx\<close> show False by simp
    qed
  next
    assume "s ! ?m < mx ! ?m"
    then have "s ! ?m \<le> mx ! ?m - 1" by simp
    then have "odo_cnt ?I mx * s ! ?m \<le> odo_cnt ?I mx * (mx ! ?m - 1)"
      using b by (intro mult_left_mono) auto
    then show "odo_pos L mx s < odo_cnt L mx" using b by (simp add: pos cnt algebra_simps)
  qed
qed

lemma iterate_steps:
  assumes L: "L \<noteq> []" "distinct L"
    and ax: "\<forall>i\<in>set L. i < length (it_subs it0) \<and> it_minimum_excluded it0 ! i = - 1 \<and>
               0 < it_maximum_excluded it0 ! i \<and> it_subs it0 ! i = 0"
    and inc: "\<And>s. length s = length (it_subs it0) \<Longrightarrow>
               increment (it0\<lparr>it_subs := s\<rparr>) = increment_while L (last L) (it0\<lparr>it_subs := s\<rparr>)"
  shows "k \<le> nat (odo_cnt L (it_maximum_excluded it0)) \<Longrightarrow>
         \<exists>s. (increment ^^ k) it0 = it0\<lparr>it_subs := s\<rparr> \<and> length s = length (it_subs it0) \<and>
             (\<forall>j. j \<notin> set L \<longrightarrow> s ! j = it_subs it0 ! j) \<and>
             odo_pos L (it_maximum_excluded it0) s = int k \<and>
             (\<forall>i\<in>set (butlast L). 0 \<le> s ! i \<and> s ! i < it_maximum_excluded it0 ! i) \<and>
             0 \<le> s ! last L \<and> s ! last L \<le> it_maximum_excluded it0 ! last L"
proof (induction k)
  case 0
  have z: "\<forall>i\<in>set L. it_subs it0 ! i = 0" using ax by auto
  have "odo_pos L (it_maximum_excluded it0) (it_subs it0) = 0"
    using z by (induction L) auto
  moreover have "last L \<in> set L" using L(1) by simp
  moreover have "\<forall>i\<in>set (butlast L). i \<in> set L" by (auto dest: in_set_butlastD)
  ultimately show ?case using ax
    by (intro exI[of _ "it_subs it0"]) (auto simp: less_imp_le)
next
  case (Suc k)
  let ?mx = "it_maximum_excluded it0"
  from Suc obtain s where
    s: "(increment ^^ k) it0 = it0\<lparr>it_subs := s\<rparr>" "length s = length (it_subs it0)"
       "\<forall>j. j \<notin> set L \<longrightarrow> s ! j = it_subs it0 ! j"
       "odo_pos L ?mx s = int k"
       "\<forall>i\<in>set (butlast L). 0 \<le> s ! i \<and> s ! i < ?mx ! i"
       "0 \<le> s ! last L" "s ! last L \<le> ?mx ! last L"
    by auto
  have "odo_pos L ?mx s < odo_cnt L ?mx" using s(4) Suc.prems by simp
  then have lt: "s ! last L < ?mx ! last L"
    using odo_weak_lt[OF L(1) s(5) s(6,7)] by simp
  have strict: "\<forall>i\<in>set L. 0 \<le> s ! i \<and> s ! i < ?mx ! i"
  proof
    fix i assume "i \<in> set L"
    then have "i \<in> set (butlast L) \<or> i = last L"
      using L(1) by (metis append_butlast_last_id in_set_conv_decomp_last insert_iff list.set(2) rotate1.simps(2) set_rotate1)
    then show "0 \<le> s ! i \<and> s ! i < ?mx ! i" using s(5,6) lt by auto
  qed
  let ?it = "it0\<lparr>it_subs := s\<rparr>"
  have pre: "\<forall>i\<in>set L. i < length (it_subs ?it) \<and> it_minimum_excluded ?it ! i = - 1 \<and>
           0 \<le> it_subs ?it ! i \<and> it_subs ?it ! i < it_maximum_excluded ?it ! i"
    using ax strict s(2) by auto
  from increment_while_step[OF L pre] obtain s' where
    s': "increment_while L (last L) ?it = ?it\<lparr>it_subs := s'\<rparr>"
        "length s' = length s"
        "\<forall>j. j \<notin> set L \<longrightarrow> s' ! j = s ! j"
        "odo_pos L ?mx s' = odo_pos L ?mx s + 1"
        "\<forall>i\<in>set (butlast L). 0 \<le> s' ! i \<and> s' ! i < ?mx ! i"
        "0 \<le> s' ! last L" "s' ! last L \<le> ?mx ! last L"
    by auto
  have "(increment ^^ Suc k) it0 = it0\<lparr>it_subs := s'\<rparr>"
    using s(1) s'(1) inc[OF s(2)] by simp
  then show ?case using s' s(2,3,4) by (intro exI[of _ s']) auto
qed

lemma nth_concat_uniform:
  "(\<forall>x\<in>set xs. length (f x) = m) \<Longrightarrow> j < length xs * m \<Longrightarrow>
   concat (map f xs) ! j = f (xs ! (j div m)) ! (j mod m)"
proof (induction xs arbitrary: j)
  case Nil
  then show ?case by simp
next
  case (Cons x xs)
  have m: "0 < m" using Cons.prems(2) by (cases m) auto
  show ?case
  proof (cases "j < m")
    case True
    then show ?thesis using Cons.prems by (simp add: nth_append)
  next
    case False
    then have j: "j - m < length xs * m" using Cons.prems(2) by simp
    have "(j - m) div m = j div m - 1" "(j - m) mod m = j mod m"
      using False m le_div_geq[of m j] le_mod_geq[of m j] by simp_all
    moreover have "0 < j div m" using False m by (simp add: div_greater_zero_iff)
    ultimately show ?thesis
      using False Cons.prems(1) Cons.IH[OF _ j] by (simp add: nth_append nth_Cons')
  qed
qed

lemma length_concat_uniform:
  "(\<forall>x\<in>set xs. length (f x) = m) \<Longrightarrow> length (concat (map f xs)) = length xs * m"
  by (induction xs) auto

lemma length_all_subs:
  "(\<forall>d\<in>set ds. 0 \<le> d) \<Longrightarrow> length (all_subs ds) = nat (prod_list ds)"
proof (induction ds)
  case Nil
  then show ?case by simp
next
  case (Cons d ds)
  then have ih: "length (all_subs ds) = nat (prod_list ds)" by simp
  have "length (all_subs (d # ds)) = length [0..<nat d] * nat (prod_list ds)"
    unfolding all_subs.simps by (rule length_concat_uniform) (simp add: ih)
  then show ?case using Cons.prems by (simp add: nat_mult_distrib)
qed

lemma all_subs_nth:
  "(\<forall>d\<in>set ds. 0 \<le> d) \<Longrightarrow> k < length (all_subs ds) \<Longrightarrow>
   length (all_subs ds ! k) = length ds \<and>
   (\<forall>i<length ds. 0 \<le> all_subs ds ! k ! i \<and> all_subs ds ! k ! i < ds ! i) \<and>
   rm_pos ds (all_subs ds ! k) = int k"
proof (induction ds arbitrary: k)
  case Nil
  then show ?case by simp
next
  case (Cons d ds)
  let ?m = "length (all_subs ds)"
  have nn: "\<forall>d\<in>set ds. 0 \<le> d" using Cons.prems(1) by simp
  have m: "?m = nat (prod_list ds)" using nn by (rule length_all_subs)
  have pnn: "0 \<le> prod_list ds" using nn by (induction ds) auto
  have uni: "\<forall>i\<in>set [0..<nat d]. length (map ((#) (int i)) (all_subs ds)) = ?m" by simp
  have len: "length (all_subs (d # ds)) = nat d * ?m"
    unfolding all_subs.simps using length_concat_uniform[OF uni] by simp
  then have k: "k < length [0..<nat d] * ?m" using Cons.prems(2) by simp
  have mpos: "0 < ?m" using k by (cases ?m) auto
  have q: "k div ?m < nat d" using k mpos by (simp add: less_mult_imp_div_less)
  have r: "k mod ?m < ?m" using mpos by simp
  have nth: "all_subs (d # ds) ! k = int (k div ?m) # all_subs ds ! (k mod ?m)"
    unfolding all_subs.simps using nth_concat_uniform[OF uni k] q r by simp
  from Cons.IH[OF nn r] have ih:
    "length (all_subs ds ! (k mod ?m)) = length ds"
    "\<forall>i<length ds. 0 \<le> all_subs ds ! (k mod ?m) ! i \<and> all_subs ds ! (k mod ?m) ! i < ds ! i"
    "rm_pos ds (all_subs ds ! (k mod ?m)) = int (k mod ?m)"
    by auto
  have "int (k div ?m) * prod_list ds + int (k mod ?m) = int k"
  proof -
    have "prod_list ds = int ?m" using m pnn by simp
    moreover have "int (k div ?m) * int ?m + int (k mod ?m) = int (k div ?m * ?m + k mod ?m)"
      by (simp only: of_nat_add of_nat_mult)
    ultimately show ?thesis by simp
  qed
  then have "rm_pos (d # ds) (all_subs (d # ds) ! k) = int k"
    using ih(3) by (simp add: nth del: all_subs.simps)
  moreover have "\<forall>i<length (d # ds). 0 \<le> all_subs (d # ds) ! k ! i \<and>
      all_subs (d # ds) ! k ! i < (d # ds) ! i"
    using ih(2) q by (auto simp: nth nth_Cons' simp del: all_subs.simps)
  ultimately show ?case using ih(1) by (simp add: nth del: all_subs.simps)
qed

lemma odo_pos_rev_rm:
  "odo_pos (rev I) mx s = rm_pos (map ((!) mx) I) (map ((!) s) I)"
proof (induction I)
  case Nil
  then show ?case by simp
next
  case (Cons i I)
  have "odo_cnt (rev I) mx = prod_list (map ((!) mx) I)"
    by (simp add: odo_cnt_def rev_map[symmetric] prod_list.rev)
  then show ?case using Cons odo_pos_append[of "rev I" "[i]" mx s]
    by (simp add: algebra_simps)
qed

lemma odo_pos_default:
  "length s = length mx \<Longrightarrow> odo_pos (rev [0..<length mx]) mx s = rm_pos mx s"
  using odo_pos_rev_rm[of "[0..<length mx]" mx s] map_nth[of mx] map_nth[of s] by simp

lemma iterator_to_default:
  assumes "0 < numel dims"
  shows "iterator_to [] dims [] =
     \<lparr>it_nsubs = length dims, it_subs = replicate (length dims) 0,
      it_start = replicate (length dims) 0,
      it_minimum_excluded = replicate (length dims) (- 1),
      it_maximum_excluded = dims, it_axis = length dims - 1, it_order = [],
      it_major_axis = 0\<rparr>"
proof -
  have ne: "dims \<noteq> []" and p: "\<forall>d\<in>set dims. 0 < d" using assms by (simp_all add: numel_pos_iff)
  then have d0: "dims ! 0 \<noteq> 0" by (cases dims) auto
  show ?thesis using ne d0
    by (auto simp: iterator_to_def iterator_order_def iterator_nsubs_def iterator_bounds_def
        iterator0_def memoc_copy_def find_major_axis_def Let_def)
qed

lemma default_order: "0 < n \<Longrightarrow> (n - 1) # rev [n - 1 + 1..<n] @ rev [0..<n - 1] = rev [0..<n]"
  by (cases n) auto

lemma default_iterator_steps:
  assumes pos: "0 < numel dims" and k: "k \<le> nat (numel dims)"
  shows "\<exists>s. (increment ^^ k) (iterator_to [] dims []) = (iterator_to [] dims [])\<lparr>it_subs := s\<rparr> \<and>
             length s = length dims \<and> rm_pos dims s = int k \<and>
             (\<forall>i<length dims. 0 < i \<longrightarrow> 0 \<le> s ! i \<and> s ! i < dims ! i) \<and>
             0 \<le> s ! 0 \<and> s ! 0 \<le> dims ! 0"
proof -
  let ?n = "length dims" and ?it0 = "iterator_to [] dims []"
  let ?L = "rev [0..<?n]"
  have ne: "dims \<noteq> []" and p: "\<forall>d\<in>set dims. 0 < d" using pos by (simp_all add: numel_pos_iff)
  have n: "0 < ?n" using ne by simp
  note f = iterator_to_default[OF pos]
  have L: "?L \<noteq> []" "distinct ?L" using n by auto
  have lastL: "last ?L = 0" using n by (simp add: last_rev hd_upt)
  have butl: "set (butlast ?L) = {1..<?n}"
  proof -
    have "butlast ?L = rev (tl [0..<?n])" by (simp add: butlast_rev)
    also have "tl [0..<?n] = [1..<?n]" by (simp add: tl_upt)
    finally show ?thesis by simp
  qed
  have ax: "\<forall>i\<in>set ?L. i < length (it_subs ?it0) \<and> it_minimum_excluded ?it0 ! i = - 1 \<and>
               0 < it_maximum_excluded ?it0 ! i \<and> it_subs ?it0 ! i = 0"
    using p by (auto simp: f)
  have inc: "\<And>s. length s = length (it_subs ?it0) \<Longrightarrow>
      increment (?it0\<lparr>it_subs := s\<rparr>) = increment_while ?L (last ?L) (?it0\<lparr>it_subs := s\<rparr>)"
    using n default_order[OF n] by (simp add: f increment_def lastL)
  have cnt: "odo_cnt ?L (it_maximum_excluded ?it0) = numel dims"
    using pos ne p map_nth[of dims]
    by (simp add: f odo_cnt_def numel_eq rev_map[symmetric] prod_list.rev)
  from iterate_steps[OF L ax inc, of k] k cnt obtain s where
    s: "(increment ^^ k) ?it0 = ?it0\<lparr>it_subs := s\<rparr>" "length s = length (it_subs ?it0)"
       "odo_pos ?L (it_maximum_excluded ?it0) s = int k"
       "\<forall>i\<in>set (butlast ?L). 0 \<le> s ! i \<and> s ! i < it_maximum_excluded ?it0 ! i"
       "0 \<le> s ! last ?L" "s ! last ?L \<le> it_maximum_excluded ?it0 ! last ?L"
    by auto
  have len: "length s = ?n" using s(2) by (simp add: f)
  have "rm_pos dims s = int k" using s(3) odo_pos_default[of s dims] len by (simp add: f)
  moreover have "\<forall>i<?n. 0 < i \<longrightarrow> 0 \<le> s ! i \<and> s ! i < dims ! i"
    using s(4) butl by (auto simp: f)
  ultimately show ?thesis using s(1,5,6) len lastL by (intro exI[of _ s]) (simp add: f)
qed

lemma rm_pos_weak_lt:
  assumes "length s = length dims" "dims \<noteq> []" "\<forall>d\<in>set dims. 0 < d"
    and "\<forall>i<length dims. 0 < i \<longrightarrow> 0 \<le> s ! i \<and> s ! i < dims ! i"
    and "0 \<le> s ! 0" "s ! 0 \<le> dims ! 0"
  shows "rm_pos dims s < prod_list dims \<longleftrightarrow> s ! 0 < dims ! 0"
proof -
  let ?L = "rev [0..<length dims]"
  have n: "0 < length dims" using assms(2) by simp
  have L: "?L \<noteq> []" using n by auto
  have lastL: "last ?L = 0" using n by (simp add: last_rev hd_upt)
  have butl: "set (butlast ?L) = {1..<length dims}"
  proof -
    have "butlast ?L = rev (tl [0..<length dims])" by (simp add: butlast_rev)
    also have "tl [0..<length dims] = [1..<length dims]" by (simp add: tl_upt)
    finally show ?thesis by simp
  qed
  have inner: "\<forall>i\<in>set (butlast ?L). 0 \<le> s ! i \<and> s ! i < dims ! i"
    using assms(4) butl by auto
  have cnt: "odo_cnt ?L dims = prod_list dims"
    using map_nth[of dims] by (simp add: odo_cnt_def rev_map[symmetric] prod_list.rev)
  from odo_weak_lt[OF L inner] assms(5,6) lastL
  show ?thesis using odo_pos_default[OF assms(1)] cnt by simp
qed

lemma default_iterator_visit:
  assumes pos: "0 < numel dims"
  shows "k < nat (numel dims) \<Longrightarrow>
           in_range ((increment ^^ k) (iterator_to [] dims [])) \<and>
           it_subs ((increment ^^ k) (iterator_to [] dims [])) = all_subs dims ! k"
    and "\<not> in_range ((increment ^^ nat (numel dims)) (iterator_to [] dims []))"
proof -
  let ?it0 = "iterator_to [] dims []"
  have ne: "dims \<noteq> []" and p: "\<forall>d\<in>set dims. 0 < d" using pos by (simp_all add: numel_pos_iff)
  have nn: "\<forall>d\<in>set dims. 0 \<le> d" using p by (auto intro: less_imp_le)
  have num: "numel dims = prod_list dims" using ne p by (simp add: numel_eq)
  note f = iterator_to_default[OF pos]
  have rng: "\<And>s. in_range (?it0\<lparr>it_subs := s\<rparr>) = (s ! 0 < dims ! 0 \<and> - 1 < s ! 0)"
    using ne by (simp add: f in_range_def)
  {
    assume k: "k < nat (numel dims)"
    then have "k \<le> nat (numel dims)" by simp
    from default_iterator_steps[OF pos this] obtain s where
      s: "(increment ^^ k) ?it0 = ?it0\<lparr>it_subs := s\<rparr>" "length s = length dims"
         "rm_pos dims s = int k"
         "\<forall>i<length dims. 0 < i \<longrightarrow> 0 \<le> s ! i \<and> s ! i < dims ! i"
         "0 \<le> s ! 0" "s ! 0 \<le> dims ! 0"
      by blast
    have "rm_pos dims s < prod_list dims" using s(3) k num by simp
    then have lt: "s ! 0 < dims ! 0"
      using rm_pos_weak_lt[OF s(2) ne p s(4,5,6)] by simp
    have strict: "\<forall>i<length dims. 0 \<le> s ! i \<and> s ! i < dims ! i"
      using s(4,5) lt by (metis gr0I)
    have kl: "k < length (all_subs dims)" using k num length_all_subs[OF nn] by simp
    from all_subs_nth[OF nn kl] have c:
      "length (all_subs dims ! k) = length dims"
      "\<forall>i<length dims. 0 \<le> all_subs dims ! k ! i \<and> all_subs dims ! k ! i < dims ! i"
      "rm_pos dims (all_subs dims ! k) = int k"
      by auto
    let ?L = "rev [0..<length dims]"
    have "odo_pos ?L dims s = odo_pos ?L dims (all_subs dims ! k)"
      using odo_pos_default[OF s(2)] odo_pos_default[OF c(1)] s(3) c(3) by simp
    from odo_pos_inj[OF _ _ this] strict c(2)
    have "\<forall>i<length dims. s ! i = all_subs dims ! k ! i" by simp
    then have "s = all_subs dims ! k" using s(2) c(1) by (simp add: nth_equalityI)
    then have "in_range ((increment ^^ k) ?it0) \<and> it_subs ((increment ^^ k) ?it0) = all_subs dims ! k"
      using s(1,5) lt rng by simp
  }
  then show "k < nat (numel dims) \<Longrightarrow>
           in_range ((increment ^^ k) ?it0) \<and> it_subs ((increment ^^ k) ?it0) = all_subs dims ! k" .
  from default_iterator_steps[OF pos le_refl] obtain s where
    s: "(increment ^^ nat (numel dims)) ?it0 = ?it0\<lparr>it_subs := s\<rparr>" "length s = length dims"
       "rm_pos dims s = int (nat (numel dims))"
       "\<forall>i<length dims. 0 < i \<longrightarrow> 0 \<le> s ! i \<and> s ! i < dims ! i"
       "0 \<le> s ! 0" "s ! 0 \<le> dims ! 0"
    by blast
  have "\<not> rm_pos dims s < prod_list dims" using s(3) pos num by simp
  then have "\<not> s ! 0 < dims ! 0"
    using rm_pos_weak_lt[OF s(2) ne p s(4,5,6)] by simp
  then show "\<not> in_range ((increment ^^ nat (numel dims)) ?it0)"
    using s(1) rng by simp
qed

lemma reduce_loop_fold:
  assumes pos: "0 < numel (hdr_dims (arr_hdr arr))"
  shows "k \<le> nat (numel (hdr_dims (arr_hdr arr))) \<Longrightarrow>
     reduce_loop h arr func ((increment ^^ k) (iterator_to [] (hdr_dims (arr_hdr arr)) [])) acc =
     Some (foldl (\<lambda>a x. func x a) acc
             (map (elem_at h arr) (drop k (all_subs (hdr_dims (arr_hdr arr))))))"
proof (induction "nat (numel (hdr_dims (arr_hdr arr))) - k" arbitrary: k acc)
  case 0
  let ?dims = "hdr_dims (arr_hdr arr)"
  have p: "\<forall>d\<in>set ?dims. 0 \<le> d" using pos by (auto simp: numel_pos_iff intro: less_imp_le)
  have k: "k = nat (numel ?dims)" using 0 by simp
  have "length (all_subs ?dims) = nat (numel ?dims)"
    using length_all_subs[OF p] pos by (simp add: numel_eq split: if_splits)
  then have "drop k (all_subs ?dims) = []" using k by simp
  then show ?case
    using default_iterator_visit(2)[OF pos] k by (subst reduce_loop.simps) simp
next
  case (Suc m)
  let ?dims = "hdr_dims (arr_hdr arr)"
  let ?it = "(increment ^^ k) (iterator_to [] ?dims [])"
  have p: "\<forall>d\<in>set ?dims. 0 \<le> d" using pos by (auto simp: numel_pos_iff intro: less_imp_le)
  have k: "k < nat (numel ?dims)" using Suc(2) by simp
  have len: "length (all_subs ?dims) = nat (numel ?dims)"
    using length_all_subs[OF p] pos by (simp add: numel_eq split: if_splits)
  from default_iterator_visit(1)[OF pos k]
  have v: "in_range ?it" "it_subs ?it = all_subs ?dims ! k" by auto
  have m: "m = nat (numel ?dims) - Suc k" using Suc(2) by simp
  have "reduce_loop h arr func ?it acc =
        reduce_loop h arr func ((increment ^^ Suc k) (iterator_to [] ?dims []))
          (func (elem_at h arr (all_subs ?dims ! k)) acc)"
    using v by (subst reduce_loop.simps) simp
  also have "\<dots> = Some (foldl (\<lambda>a x. func x a) (func (elem_at h arr (all_subs ?dims ! k)) acc)
             (map (elem_at h arr) (drop (Suc k) (all_subs ?dims))))"
    using Suc(1)[OF m] k by simp
  also have "\<dots> = Some (foldl (\<lambda>a x. func x a) acc
             (map (elem_at h arr) (drop k (all_subs ?dims))))"
    using k len by (simp add: Cons_nth_drop_Suc[symmetric])
  finally show ?case .
qed

text \<open>
  C7. The whole-array \<open>reduce\<close> of an empty array returns the accumulator type's default
  value. On a non-empty array of a valid shape it returns: it starts from the first
  element in row-major order, cast to the accumulator type, and folds the remaining
  elements into it from left to right in row-major order, each by \<open>func(element, accumulator)\<close>.
\<close>

theorem reduce_whole_fold:
  "(empty_arr arr \<longrightarrow> reduce h arr func cast dflt = Some dflt)
   \<and> (\<not> empty_arr arr \<and> 0 < numel (hdr_dims (arr_hdr arr)) \<longrightarrow>
        reduce h arr func cast dflt =
        Some (foldl (\<lambda>acc x. func x acc)
                (cast (elem_at h arr (hd (all_subs (hdr_dims (arr_hdr arr))))))
                (map (elem_at h arr) (tl (all_subs (hdr_dims (arr_hdr arr)))))))"
proof (intro conjI impI)
  assume "empty_arr arr"
  then show "reduce h arr func cast dflt = Some dflt" by (simp add: reduce_def)
next
  let ?dims = "hdr_dims (arr_hdr arr)"
  assume a: "\<not> empty_arr arr \<and> 0 < numel ?dims"
  then have pos: "0 < numel ?dims" by simp
  have p: "\<forall>d\<in>set ?dims. 0 \<le> d" using pos by (auto simp: numel_pos_iff intro: less_imp_le)
  have len: "length (all_subs ?dims) = nat (numel ?dims)"
    using length_all_subs[OF p] pos by (simp add: numel_eq split: if_splits)
  have k0: "0 < nat (numel ?dims)" using pos by simp
  from default_iterator_visit(1)[OF pos k0]
  have s0: "it_subs (iterator_to [] ?dims []) = all_subs ?dims ! 0" by simp
  have "all_subs ?dims \<noteq> []" using len k0 by auto
  then have hd0: "all_subs ?dims ! 0 = hd (all_subs ?dims)"
    by (simp add: hd_conv_nth)
  have k1: "Suc 0 \<le> nat (numel ?dims)" using pos by simp
  show "reduce h arr func cast dflt =
        Some (foldl (\<lambda>acc x. func x acc) (cast (elem_at h arr (hd (all_subs ?dims))))
                (map (elem_at h arr) (tl (all_subs ?dims))))"
    using a reduce_loop_fold[OF pos k1, of h func] s0 hd0
    by (simp add: reduce_def Let_def drop_Suc)
qed

theorem reduce_whole_fold_witness:
  "reduce [[1, 2, 3, 4, 5, 6 :: int]]
     \<lparr>arr_hdr = Array_header_dims [3, 1, 2], arr_buffsp = Some 0\<rparr>
     (\<lambda>v p. p @ [v]) (\<lambda>v. [v]) [] = Some [1, 2, 3, 4, 5, 6]
   \<and> reduce [] Array0 (\<lambda>v p. p @ [v :: int]) (\<lambda>v. [v]) [] = Some []"
proof -
  let ?A = "\<lparr>arr_hdr = Array_header_dims [3, 1, 2], arr_buffsp = Some 0\<rparr>"
  let ?h = "[[1, 2, 3, 4, 5, 6 :: int]]"
  have a: "\<not> empty_arr ?A \<and> 0 < numel (hdr_dims (arr_hdr ?A))" by code_simp
  have e: "foldl (\<lambda>acc x. acc @ [x]) [elem_at ?h ?A (hd (all_subs (hdr_dims (arr_hdr ?A))))]
             (map (elem_at ?h ?A) (tl (all_subs (hdr_dims (arr_hdr ?A))))) = [1, 2, 3, 4, 5, 6]"
    by code_simp
  have b: "empty_arr Array0" by code_simp
  from reduce_whole_fold[of ?A ?h "\<lambda>v p. p @ [v]" "\<lambda>v. [v]" "[]"] a e
    reduce_whole_fold[of Array0 "[]" "\<lambda>v p. p @ [v :: int]" "\<lambda>v. [v]" "[]"] b
  show ?thesis by simp
qed

lemma all_match_loop_all:
  assumes pos: "0 < numel dims"
  shows "k \<le> nat (numel dims) \<Longrightarrow>
     all_match_loop h lhs rhs func ((increment ^^ k) (iterator_to [] dims [])) =
     Some (list_all (\<lambda>s. func (elem_at h lhs s) (elem_at h rhs s)) (drop k (all_subs dims)))"
proof (induction "nat (numel dims) - k" arbitrary: k)
  case 0
  have p: "\<forall>d\<in>set dims. 0 \<le> d" using pos by (auto simp: numel_pos_iff intro: less_imp_le)
  have k: "k = nat (numel dims)" using 0 by simp
  have "length (all_subs dims) = nat (numel dims)"
    using length_all_subs[OF p] pos by (simp add: numel_eq split: if_splits)
  then have "drop k (all_subs dims) = []" using k by simp
  then show ?case
    using default_iterator_visit(2)[OF pos] k by (subst all_match_loop.simps) simp
next
  case (Suc m)
  let ?it = "(increment ^^ k) (iterator_to [] dims [])"
  have p: "\<forall>d\<in>set dims. 0 \<le> d" using pos by (auto simp: numel_pos_iff intro: less_imp_le)
  have k: "k < nat (numel dims)" using Suc(2) by simp
  have len: "length (all_subs dims) = nat (numel dims)"
    using length_all_subs[OF p] pos by (simp add: numel_eq split: if_splits)
  from default_iterator_visit(1)[OF pos k]
  have v: "in_range ?it" "it_subs ?it = all_subs dims ! k" by auto
  have m: "m = nat (numel dims) - Suc k" using Suc(2) by simp
  have dr: "drop k (all_subs dims) = all_subs dims ! k # drop (Suc k) (all_subs dims)"
    using k len by (simp add: Cons_nth_drop_Suc)
  show ?case
  proof (cases "func (elem_at h lhs (all_subs dims ! k)) (elem_at h rhs (all_subs dims ! k))")
    case True
    have "all_match_loop h lhs rhs func ?it =
          all_match_loop h lhs rhs func ((increment ^^ Suc k) (iterator_to [] dims []))"
      using v True by (subst all_match_loop.simps) simp
    then show ?thesis using Suc(1)[OF m] k True by (simp add: dr)
  next
    case False
    have "all_match_loop h lhs rhs func ?it = Some False"
      using v False by (subst all_match_loop.simps) simp
    then show ?thesis using False by (simp add: dr)
  qed
qed

text \<open>
  C9. \<open>all_equal\<close> is \<open>all_match\<close> with equality as the predicate, so the two agree on
  every pair of arrays. Both return true, without looking at any element, when both arrays
  are empty; both return false, and not an error, when the shapes differ and the arrays are
  not both empty; an empty layout has no dimensions, so that under this invariant of the
  layouts both return false whenever the shapes differ. On two non-empty arrays of one
  valid shape \<open>all_match\<close> returns whether the predicate holds at every subscript tuple.
\<close>

theorem all_match_all_equal:
  "all_equal h lhs rhs = all_match h lhs rhs (=)
   \<and> (empty_arr lhs \<and> empty_arr rhs \<longrightarrow>
        all_match h lhs rhs func = Some True \<and> all_equal h lhs rhs = Some True)
   \<and> (hdr_dims (arr_hdr lhs) \<noteq> hdr_dims (arr_hdr rhs) \<and> \<not> (empty_arr lhs \<and> empty_arr rhs) \<longrightarrow>
        all_match h lhs rhs func = Some False \<and> all_equal h lhs rhs = Some False)
   \<and> (hdr_dims (arr_hdr lhs) \<noteq> hdr_dims (arr_hdr rhs) \<and>
       (empty_arr lhs \<longrightarrow> hdr_dims (arr_hdr lhs) = []) \<and>
       (empty_arr rhs \<longrightarrow> hdr_dims (arr_hdr rhs) = []) \<longrightarrow>
        all_match h lhs rhs func = Some False \<and> all_equal h lhs rhs = Some False)
   \<and> (\<not> empty_arr lhs \<and> \<not> empty_arr rhs \<and> hdr_dims (arr_hdr lhs) = hdr_dims (arr_hdr rhs) \<and>
       0 < numel (hdr_dims (arr_hdr lhs)) \<longrightarrow>
        all_match h lhs rhs func =
          Some (list_all (\<lambda>s. func (elem_at h lhs s) (elem_at h rhs s))
                  (all_subs (hdr_dims (arr_hdr lhs)))))"
proof -
  have 1: "all_equal h lhs rhs = all_match h lhs rhs (=)" by (simp add: all_equal_def)
  have 2: "empty_arr lhs \<and> empty_arr rhs \<longrightarrow>
        all_match h lhs rhs func = Some True \<and> all_equal h lhs rhs = Some True"
    by (simp add: all_equal_def all_match_def)
  have 3: "hdr_dims (arr_hdr lhs) \<noteq> hdr_dims (arr_hdr rhs) \<and> \<not> (empty_arr lhs \<and> empty_arr rhs) \<longrightarrow>
        all_match h lhs rhs func = Some False \<and> all_equal h lhs rhs = Some False"
    by (auto simp: all_equal_def all_match_def)
  have 4: "hdr_dims (arr_hdr lhs) \<noteq> hdr_dims (arr_hdr rhs) \<and>
       (empty_arr lhs \<longrightarrow> hdr_dims (arr_hdr lhs) = []) \<and>
       (empty_arr rhs \<longrightarrow> hdr_dims (arr_hdr rhs) = []) \<longrightarrow>
        all_match h lhs rhs func = Some False \<and> all_equal h lhs rhs = Some False"
    using 3 by auto
  have 5: "\<not> empty_arr lhs \<and> \<not> empty_arr rhs \<and> hdr_dims (arr_hdr lhs) = hdr_dims (arr_hdr rhs) \<and>
       0 < numel (hdr_dims (arr_hdr lhs)) \<longrightarrow>
        all_match h lhs rhs func =
          Some (list_all (\<lambda>s. func (elem_at h lhs s) (elem_at h rhs s))
                  (all_subs (hdr_dims (arr_hdr lhs))))"
    using all_match_loop_all[of "hdr_dims (arr_hdr lhs)" 0 h lhs rhs func]
    by (auto simp: all_match_def)
  from 1 2 3 4 5 show ?thesis by blast
qed

theorem all_match_all_equal_witness:
  "all_equal ([] :: int store) Array0 Array0 = Some True
   \<and> all_match [[1, 2 :: int], [1, 2, 3]]
        \<lparr>arr_hdr = Array_header_dims [2], arr_buffsp = Some 0\<rparr>
        \<lparr>arr_hdr = Array_header_dims [3], arr_buffsp = Some 1\<rparr> (=) = Some False
   \<and> all_equal [[1, 2 :: int], [1, 2, 3]]
        \<lparr>arr_hdr = Array_header_dims [2], arr_buffsp = Some 0\<rparr>
        \<lparr>arr_hdr = Array_header_dims [3], arr_buffsp = Some 1\<rparr> = Some False
   \<and> all_match [[1, 2 :: int], [1, 2, 3]]
        \<lparr>arr_hdr = Array_header_dims [2], arr_buffsp = Some 0\<rparr>
        \<lparr>arr_hdr = Array_header_dims [2], arr_buffsp = Some 1\<rparr> (=) = Some True"
proof -
  let ?h = "[[1, 2 :: int], [1, 2, 3]]"
  let ?A = "\<lparr>arr_hdr = Array_header_dims [2], arr_buffsp = Some 0\<rparr>"
  let ?B = "\<lparr>arr_hdr = Array_header_dims [3], arr_buffsp = Some 1\<rparr>"
  let ?C = "\<lparr>arr_hdr = Array_header_dims [2], arr_buffsp = Some 1\<rparr>"
  have e: "empty_arr Array0" by code_simp
  have d: "hdr_dims (arr_hdr ?A) \<noteq> hdr_dims (arr_hdr ?B) \<and>
           (empty_arr ?A \<longrightarrow> hdr_dims (arr_hdr ?A) = []) \<and>
           (empty_arr ?B \<longrightarrow> hdr_dims (arr_hdr ?B) = []) \<and> \<not> (empty_arr ?A \<and> empty_arr ?B)"
    by code_simp
  have s: "\<not> empty_arr ?A \<and> \<not> empty_arr ?C \<and> hdr_dims (arr_hdr ?A) = hdr_dims (arr_hdr ?C) \<and>
           0 < numel (hdr_dims (arr_hdr ?A))"
    by code_simp
  have v: "list_all (\<lambda>s. elem_at ?h ?A s = elem_at ?h ?C s) (all_subs (hdr_dims (arr_hdr ?A)))"
    by code_simp
  from all_match_all_equal[of "[] :: int store" Array0 Array0 "(=)"] e
    all_match_all_equal[of ?h ?A ?B "(=)"] d
    all_match_all_equal[of ?h ?A ?C "(=)"] s v
  show ?thesis by simp
qed

lemma empty_layout_no_dims:
  "(hdr_empty (Array_header_dims dims) \<longrightarrow> hdr_dims (Array_header_dims dims) = [])
   \<and> (Array_header_slice pd ps po R = Some h1 \<and> hdr_empty h1 \<longrightarrow> hdr_dims h1 = [])
   \<and> (hdr_empty (Array_header_omit pd1 omitted_axis) \<longrightarrow>
        hdr_dims (Array_header_omit pd1 omitted_axis) = [])
   \<and> (Array_header_order pd2 new_order = Some h2 \<and> hdr_empty h2 \<longrightarrow> hdr_dims h2 = [])
   \<and> (hdr_empty (Array_header_grow pd3 c axis) \<longrightarrow> hdr_dims (Array_header_grow pd3 c axis) = [])"
  by (auto simp: hdr_empty_def Array_header_dims_def Array_header_slice_def Array_header_omit_def
      Array_header_order_def Array_header_grow_def header0_def Let_def
      split: if_splits option.splits prod.splits)

lemma rm_pos_sum:
  "length c = length ds \<Longrightarrow>
   rm_pos ds c = (\<Sum>i<length ds. c ! i * prod_list (drop (Suc i) ds))"
proof (induction ds arbitrary: c)
  case Nil
  then show ?case by simp
next
  case (Cons d ds)
  then obtain x xs where c: "c = x # xs" "length xs = length ds" by (cases c) auto
  show ?case using Cons.IH[OF c(2)]
    by (simp add: c sum.lessThan_Suc_shift del: sum.lessThan_Suc)
qed

lemma row_major_closed:
  assumes rec: "r ! (n - 1) = (1::int)" "\<And>i. i + 1 < n \<Longrightarrow> r ! i = r ! (i + 1) * dims ! (i + 1)"
    and n: "n = length dims"
  shows "i < n \<Longrightarrow> r ! i = prod_list (drop (Suc i) dims)"
proof (induction "n - 1 - i" arbitrary: i)
  case 0
  then have "i = n - 1" by simp
  then show ?case using rec(1) n by simp
next
  case (Suc m)
  then have i: "i + 1 < n" and m: "m = n - 1 - (i + 1)" by simp_all
  have "r ! (i + 1) = prod_list (drop (Suc (i + 1)) dims)" using Suc(1)[OF m] i by simp
  moreover have "drop (Suc i) dims = dims ! (i + 1) # drop (Suc (i + 1)) dims"
    using i n by (simp add: Cons_nth_drop_Suc)
  ultimately show ?case using rec(2)[OF i] by (simp add: algebra_simps)
qed

lemma compute_strides_closed:
  assumes "length s0 = length dims" "dims \<noteq> []" "i < length dims"
  shows "compute_strides dims s0 ! i = prod_list (drop (Suc i) dims)"
  using row_major_closed[of "compute_strides dims s0" "length dims" dims i]
    compute_strides_row_major[OF assms(1,2)] assms(3) by simp

lemma subs2ind_row_major:
  assumes pos: "0 < numel dims" and len: "length s0 = length dims"
    and k: "k < nat (numel dims)"
  shows "subs2ind 0 (compute_strides dims s0) dims (all_subs dims ! k) = int k"
proof -
  let ?c = "all_subs dims ! k" and ?r = "compute_strides dims s0"
  have ne: "dims \<noteq> []" and p: "\<forall>d\<in>set dims. 0 < d" using pos by (simp_all add: numel_pos_iff)
  have nn: "\<forall>d\<in>set dims. 0 \<le> d" using p by (auto intro: less_imp_le)
  have num: "numel dims = prod_list dims" using ne p by (simp add: numel_eq)
  have kl: "k < length (all_subs dims)" using k num length_all_subs[OF nn] by simp
  from all_subs_nth[OF nn kl] have c:
    "length ?c = length dims" "\<forall>i<length dims. 0 \<le> ?c ! i \<and> ?c ! i < dims ! i"
    "rm_pos dims ?c = int k"
    by auto
  have lr: "length ?r = length dims" using compute_strides_row_major(1)[OF len ne] .
  have "subs2ind 0 ?r dims ?c =
        (\<Sum>i<length dims. ?r ! i * (pad_subs (length dims) ?c ! i mod dims ! i))"
    using subs2ind_sum[OF lr, of 0 ?c] by simp
  also have "\<dots> = (\<Sum>i<length dims. ?c ! i * prod_list (drop (Suc i) dims))"
  proof (rule sum.cong)
    fix i assume "i \<in> {..<length dims}"
    then have i: "i < length dims" by simp
    have "pad_subs (length dims) ?c ! i = ?c ! i" using c(1) by (simp add: pad_subs_def)
    moreover have "?c ! i mod dims ! i = ?c ! i" using c(2) i by simp
    ultimately show "?r ! i * (pad_subs (length dims) ?c ! i mod dims ! i) =
          ?c ! i * prod_list (drop (Suc i) dims)"
      using compute_strides_closed[OF len ne i] by (simp add: mult.commute)
  qed simp
  also have "\<dots> = int k" using rm_pos_sum[OF c(1)] c(3) by simp
  finally show ?thesis .
qed

lemma fill_step:
  "k < n \<Longrightarrow>
   (map g [0..<k] @ replicate (n - k) z)[k := g k] = map g [0..<Suc k] @ replicate (n - Suc k) z"
proof -
  assume k: "k < n"
  then have "replicate (n - k) z = z # replicate (n - Suc k) z"
    by (cases "n - k") (auto simp: Suc_diff_Suc)
  then show ?thesis by (simp add: list_update_append)
qed

lemma elem_at_old:
  "arr_buffsp arr = Some a \<Longrightarrow> a < length h \<Longrightarrow> elem_at (h @ [b]) arr s = elem_at h arr s"
  by (simp add: elem_at_def nth_append)

lemma put_at_fresh:
  assumes b: "arr_buffsp res = Some (length h)"
    and o: "hdr_offset (arr_hdr res) = 0"
    and st: "hdr_strides (arr_hdr res) = compute_strides (hdr_dims (arr_hdr res)) s0"
            "length s0 = length (hdr_dims (arr_hdr res))"
    and pos: "0 < numel (hdr_dims (arr_hdr res))"
    and k: "k < n" "n = nat (numel (hdr_dims (arr_hdr res)))"
  shows "put_at (h @ [map g [0..<k] @ replicate (n - k) z]) res
           (all_subs (hdr_dims (arr_hdr res)) ! k) (g k) =
         h @ [map g [0..<Suc k] @ replicate (n - Suc k) z]"
proof -
  have "subs2ind 0 (compute_strides (hdr_dims (arr_hdr res)) s0) (hdr_dims (arr_hdr res))
          (all_subs (hdr_dims (arr_hdr res)) ! k) = int k"
    using subs2ind_row_major[OF pos st(2)] k by simp
  then show ?thesis
    using b o st(1) fill_step[OF k(1), of g z] by (simp add: put_at_def)
qed

lemma Array_dims_fresh:
  assumes "0 < numel dims"
  shows "Array_dims h dims z =
     (\<lparr>arr_hdr = Array_header_dims dims, arr_buffsp = Some (length h)\<rparr>,
      h @ [replicate (nat (numel dims)) z])"
    and "hdr_dims (Array_header_dims dims) = dims"
    and "hdr_offset (Array_header_dims dims) = 0"
    and "hdr_strides (Array_header_dims dims) = compute_strides dims (replicate (length dims) 0)"
    and "hdr_usable (Array_header_dims dims)"
    and "hdr_count (Array_header_dims dims) = numel dims"
    and "\<not> hdr_is_subarray (Array_header_dims dims)"
  using assms by (simp_all add: Array_dims_def Array_header_dims_def alloc_def Let_def)

lemma length_all_subs_numel:
  "0 < numel dims \<Longrightarrow> length (all_subs dims) = nat (numel dims)"
proof -
  assume pos: "0 < numel dims"
  then have p: "\<forall>d\<in>set dims. 0 \<le> d" by (auto simp: numel_pos_iff intro: less_imp_le)
  show ?thesis using length_all_subs[OF p] pos by (simp add: numel_eq split: if_splits)
qed

lemma clone_loop_fill:
  assumes pos: "0 < numel (hdr_dims (arr_hdr arr))"
    and a: "arr_buffsp arr = Some a" "a < length h"
    and n: "n = nat (numel (hdr_dims (arr_hdr arr)))"
    and c: "c = \<lparr>arr_hdr = Array_header_dims (hdr_dims (arr_hdr arr)), arr_buffsp = Some (length h)\<rparr>"
    and g: "g = (\<lambda>j. elem_at h arr (all_subs (hdr_dims (arr_hdr arr)) ! j))"
  shows "k \<le> n \<Longrightarrow>
     clone_loop arr c ((increment ^^ k) (iterator_to [] (hdr_dims (arr_hdr arr)) []))
       (h @ [map g [0..<k] @ replicate (n - k) z]) = Some (h @ [map g [0..<n]])"
proof (induction "n - k" arbitrary: k)
  case 0
  then have k: "k = n" by simp
  show ?case using default_iterator_visit(2)[OF pos] k n
    by (subst clone_loop.simps) simp
next
  case (Suc m)
  let ?dims = "hdr_dims (arr_hdr arr)"
  let ?it = "(increment ^^ k) (iterator_to [] ?dims [])"
  let ?H = "h @ [map g [0..<k] @ replicate (n - k) z]"
  have k: "k < n" using Suc(2) by simp
  from default_iterator_visit(1)[OF pos] k n
  have v: "in_range ?it" "it_subs ?it = all_subs ?dims ! k" by auto
  note ad = Array_dims_fresh[OF pos]
  have rd: "elem_at ?H arr (all_subs ?dims ! k) = g k"
    using elem_at_old[OF a] by (simp add: g)
  have wr: "put_at ?H c (all_subs ?dims ! k) (g k) =
            h @ [map g [0..<Suc k] @ replicate (n - Suc k) z]"
    using put_at_fresh[of c h "replicate (length ?dims) 0" k n g z] k n pos
    by (simp add: c ad)
  have m: "m = n - Suc k" using Suc(2) by simp
  have "clone_loop arr c ?it ?H =
        clone_loop arr c ((increment ^^ Suc k) (iterator_to [] ?dims []))
          (h @ [map g [0..<Suc k] @ replicate (n - Suc k) z])"
    using v rd wr by (subst clone_loop.simps) simp
  then show ?case using Suc(1)[OF m] k by simp
qed

lemma clone_result:
  "(empty_arr arr \<longrightarrow> clone h arr z = Some (Array0, h))
   \<and> (\<not> empty_arr arr \<and> 0 < numel (hdr_dims (arr_hdr arr)) \<and>
       arr_buffsp arr = Some a \<and> a < length h \<longrightarrow>
        clone h arr z =
          Some (\<lparr>arr_hdr = Array_header_dims (hdr_dims (arr_hdr arr)), arr_buffsp = Some (length h)\<rparr>,
                h @ [map (elem_at h arr) (all_subs (hdr_dims (arr_hdr arr)))]))"
proof (intro conjI impI)
  assume "empty_arr arr"
  then show "clone h arr z = Some (Array0, h)" by (simp add: clone_def)
next
  let ?dims = "hdr_dims (arr_hdr arr)"
  let ?n = "nat (numel ?dims)"
  let ?g = "\<lambda>j. elem_at h arr (all_subs ?dims ! j)"
  assume as: "\<not> empty_arr arr \<and> 0 < numel ?dims \<and> arr_buffsp arr = Some a \<and> a < length h"
  then have pos: "0 < numel ?dims" and a: "arr_buffsp arr = Some a" "a < length h" by auto
  have "map ?g [0..<?n] = map (elem_at h arr) (all_subs ?dims)"
  proof -
    have "map ?g [0..<?n] = map ((!) (map (elem_at h arr) (all_subs ?dims))) [0..<?n]"
      using length_all_subs_numel[OF pos] by simp
    also have "\<dots> = map (elem_at h arr) (all_subs ?dims)"
      using length_all_subs_numel[OF pos] map_nth[of "map (elem_at h arr) (all_subs ?dims)"]
      by simp
    finally show ?thesis .
  qed
  moreover have "clone_loop arr \<lparr>arr_hdr = Array_header_dims ?dims, arr_buffsp = Some (length h)\<rparr>
          (iterator_to [] ?dims []) (h @ [replicate ?n z]) = Some (h @ [map ?g [0..<?n]])"
    using clone_loop_fill[OF pos a refl refl refl, of 0 z] by simp
  ultimately show "clone h arr z =
          Some (\<lparr>arr_hdr = Array_header_dims ?dims, arr_buffsp = Some (length h)\<rparr>,
                h @ [map (elem_at h arr) (all_subs ?dims)])"
    using as Array_dims_fresh(1)[OF pos, of h z] by (simp add: clone_def)
qed

text \<open>
  C10. When the left operand is empty, \<open>append\<close> and \<open>insert\<close> return the clone of the
  right operand, and when the right operand is empty they return the clone of the left
  one, whatever the axis and the position are. No rank or dimension is compared on these
  paths: the result is never an exception. The clone of an empty array is the empty array,
  and the clone of a non-empty array of a valid shape is a new row-major array over a new
  buffer that holds the elements in row-major order.
\<close>

theorem append_insert_empty_operand:
  "(empty_arr lhs \<longrightarrow>
      append h lhs rhs axis z = map_option Inr (clone h rhs z) \<and>
      insert_axis h lhs rhs ind axis z = map_option Inr (clone h rhs z))
   \<and> (empty_arr rhs \<longrightarrow>
      append h lhs rhs axis z = map_option Inr (clone h lhs z) \<and>
      insert_axis h lhs rhs ind axis z = map_option Inr (clone h lhs z))
   \<and> (empty_arr lhs \<or> empty_arr rhs \<longrightarrow>
      append h lhs rhs axis z \<noteq> Some (Inl e) \<and> insert_axis h lhs rhs ind axis z \<noteq> Some (Inl e))
   \<and> (empty_arr arr \<longrightarrow> clone h arr z = Some (Array0, h))
   \<and> (\<not> empty_arr arr \<and> 0 < numel (hdr_dims (arr_hdr arr)) \<and>
       arr_buffsp arr = Some a \<and> a < length h \<longrightarrow>
        clone h arr z =
          Some (\<lparr>arr_hdr = Array_header_dims (hdr_dims (arr_hdr arr)), arr_buffsp = Some (length h)\<rparr>,
                h @ [map (elem_at h arr) (all_subs (hdr_dims (arr_hdr arr)))]))"
proof -
  have 1: "empty_arr lhs \<longrightarrow>
      append h lhs rhs axis z = map_option Inr (clone h rhs z) \<and>
      insert_axis h lhs rhs ind axis z = map_option Inr (clone h rhs z)"
    by (simp add: append_def insert_axis_def)
  have 2: "empty_arr rhs \<longrightarrow>
      append h lhs rhs axis z = map_option Inr (clone h lhs z) \<and>
      insert_axis h lhs rhs ind axis z = map_option Inr (clone h lhs z)"
    by (simp add: append_def insert_axis_def clone_def)
  have 3: "empty_arr lhs \<or> empty_arr rhs \<longrightarrow>
      append h lhs rhs axis z \<noteq> Some (Inl e) \<and> insert_axis h lhs rhs ind axis z \<noteq> Some (Inl e)"
    using 1 2 by auto
  from 1 2 3 clone_result[of arr h z a] show ?thesis by blast
qed

theorem append_insert_empty_operand_witness:
  "append [[1, 2, 3, 4, 5, 6 :: int]] Array0
      \<lparr>arr_hdr = Array_header_dims [3, 2], arr_buffsp = Some 0\<rparr> 7 0
    = Some (Inr (\<lparr>arr_hdr = Array_header_dims [3, 2], arr_buffsp = Some 1\<rparr>,
                 [[1, 2, 3, 4, 5, 6], [1, 2, 3, 4, 5, 6]]))
   \<and> insert_axis [[1, 2, 3, 4, 5, 6 :: int]]
      \<lparr>arr_hdr = Array_header_dims [3, 2], arr_buffsp = Some 0\<rparr> Array0 4 7 0
    = Some (Inr (\<lparr>arr_hdr = Array_header_dims [3, 2], arr_buffsp = Some 1\<rparr>,
                 [[1, 2, 3, 4, 5, 6], [1, 2, 3, 4, 5, 6]]))"
proof -
  let ?h = "[[1, 2, 3, 4, 5, 6 :: int]]"
  let ?B = "\<lparr>arr_hdr = Array_header_dims [3, 2], arr_buffsp = Some 0\<rparr>"
  have e: "empty_arr Array0" by code_simp
  have b: "\<not> empty_arr ?B \<and> 0 < numel (hdr_dims (arr_hdr ?B)) \<and> arr_buffsp ?B = Some 0 \<and>
           0 < length ?h"
    by code_simp
  have v: "hdr_dims (Array_header_dims [3, 2]) = [3, 2]"
    "map (elem_at ?h ?B) (all_subs [3, 2]) = [1, 2, 3, 4, 5, 6]"
    by code_simp+
  from append_insert_empty_operand[where lhs = Array0 and h = ?h and rhs = ?B and axis = 7
        and z = 0 and ind = 4 and arr = ?B and a = 0 and e = invalid_argument] e b
    append_insert_empty_operand[where lhs = ?B and h = ?h and rhs = Array0 and axis = 7
        and z = 0 and ind = 4 and arr = ?B and a = 0 and e = invalid_argument]
  show ?thesis by (simp add: v del: all_subs.simps)
qed

lemma reshape_loop_fill:
  assumes pos: "0 < numel (hdr_dims (arr_hdr arr))" and posn: "0 < numel new_dims"
    and a: "arr_buffsp arr = Some a" "a < length h"
    and n: "n = nat (numel (hdr_dims (arr_hdr arr)))" "n = nat (numel new_dims)"
    and r: "res = \<lparr>arr_hdr = Array_header_dims new_dims, arr_buffsp = Some (length h)\<rparr>"
    and g: "g = (\<lambda>j. elem_at h arr (all_subs (hdr_dims (arr_hdr arr)) ! j))"
  shows "k \<le> n \<Longrightarrow>
     reshape_loop arr res ((increment ^^ k) (iterator_to [] (hdr_dims (arr_hdr arr)) []))
       ((increment ^^ k) (iterator_to [] new_dims []))
       (h @ [map g [0..<k] @ replicate (n - k) z]) = Some (h @ [map g [0..<n]])"
proof (induction "n - k" arbitrary: k)
  case 0
  then have k: "k = n" by simp
  show ?case using default_iterator_visit(2)[OF pos] k n
    by (subst reshape_loop.simps) simp
next
  case (Suc m)
  let ?dims = "hdr_dims (arr_hdr arr)"
  let ?ip = "(increment ^^ k) (iterator_to [] ?dims [])"
  let ?in = "(increment ^^ k) (iterator_to [] new_dims [])"
  let ?H = "h @ [map g [0..<k] @ replicate (n - k) z]"
  have k: "k < n" using Suc(2) by simp
  from default_iterator_visit(1)[OF pos] k n
  have vp: "in_range ?ip" "it_subs ?ip = all_subs ?dims ! k" by auto
  from default_iterator_visit(1)[OF posn] k n
  have vn: "in_range ?in" "it_subs ?in = all_subs new_dims ! k" by auto
  note ad = Array_dims_fresh[OF posn]
  have rd: "elem_at ?H arr (all_subs ?dims ! k) = g k"
    using elem_at_old[OF a] by (simp add: g)
  have wr: "put_at ?H res (all_subs new_dims ! k) (g k) =
            h @ [map g [0..<Suc k] @ replicate (n - Suc k) z]"
    using put_at_fresh[of res h "replicate (length new_dims) 0" k n g z] k n posn
    by (simp add: r ad)
  have m: "m = n - Suc k" using Suc(2) by simp
  have "reshape_loop arr res ?ip ?in ?H =
        reshape_loop arr res ((increment ^^ Suc k) (iterator_to [] ?dims []))
          ((increment ^^ Suc k) (iterator_to [] new_dims []))
          (h @ [map g [0..<Suc k] @ replicate (n - Suc k) z])"
    using vp vn rd wr by (subst reshape_loop.simps) simp
  then show ?case using Suc(1)[OF m] k by simp
qed

lemma map_nth_all_subs:
  assumes pos: "0 < numel dims"
  shows "map (\<lambda>j. f (all_subs dims ! j)) [0..<nat (numel dims)] = map f (all_subs dims)"
proof -
  have "map (\<lambda>j. f (all_subs dims ! j)) [0..<nat (numel dims)] =
        map ((!) (map f (all_subs dims))) [0..<nat (numel dims)]"
    using length_all_subs_numel[OF pos] by simp
  also have "\<dots> = map f (all_subs dims)"
    using length_all_subs_numel[OF pos] map_nth[of "map f (all_subs dims)"] by simp
  finally show ?thesis .
qed

lemma reshape_view:
  assumes ne: "\<not> empty_arr arr" and pos: "0 < numel (hdr_dims (arr_hdr arr))"
    and cnt: "hdr_count (arr_hdr arr) = numel (hdr_dims (arr_hdr arr))"
    and a: "arr_buffsp arr = Some a" "a < length h"
    and eq: "hdr_count (arr_hdr arr) = numel new_dims" "hdr_dims (arr_hdr arr) \<noteq> new_dims"
    and v: "hdr_is_subarray (arr_hdr arr)"
  shows "reshape h arr new_dims z =
     Some (Inr (\<lparr>arr_hdr = Array_header_dims new_dims, arr_buffsp = Some (length h)\<rparr>,
                h @ [map (elem_at h arr) (all_subs (hdr_dims (arr_hdr arr)))]))"
proof -
  let ?dims = "hdr_dims (arr_hdr arr)"
  let ?n = "nat (numel ?dims)"
  let ?g = "\<lambda>j. elem_at h arr (all_subs ?dims ! j)"
  have posn: "0 < numel new_dims" using pos cnt eq by simp
  have nn: "?n = nat (numel new_dims)" using cnt eq by simp
  have "reshape_loop arr \<lparr>arr_hdr = Array_header_dims new_dims, arr_buffsp = Some (length h)\<rparr>
          (iterator_to [] ?dims []) (iterator_to [] new_dims []) (h @ [replicate ?n z]) =
        Some (h @ [map ?g [0..<?n]])"
    using reshape_loop_fill[OF pos posn a refl nn refl refl, of 0 z] by simp
  then show ?thesis
    using ne eq v Array_dims_fresh(1)[OF posn, of h z] nn map_nth_all_subs[OF pos, of "elem_at h arr"]
    by (simp add: reshape_def)
qed

lemma elem_at_fresh:
  assumes b: "arr_buffsp res = Some (length h)"
    and o: "hdr_offset (arr_hdr res) = 0"
    and st: "hdr_strides (arr_hdr res) = compute_strides (hdr_dims (arr_hdr res)) s0"
            "length s0 = length (hdr_dims (arr_hdr res))"
    and pos: "0 < numel (hdr_dims (arr_hdr res))"
    and k: "k < nat (numel (hdr_dims (arr_hdr res)))"
  shows "elem_at (h @ [buf]) res (all_subs (hdr_dims (arr_hdr res)) ! k) = buf ! k"
  using subs2ind_row_major[OF pos st(2) k] b o st(1) by (simp add: elem_at_def)

text \<open>
  C5, as the code has it. For a non-empty array with a valid layout: \<open>reshape\<close> throws
  \<open>invalid_argument\<close> exactly when the array's count differs from \<open>numel(new_dims)\<close>, which
  is the product of \<open>new_dims\<close> only when \<open>new_dims\<close> is not empty and has no entry below 1,
  and is 0 otherwise. When the counts agree: for \<open>new_dims\<close> equal to the array's dimensions
  the result is the array itself on the unchanged store; for a view the result is a new
  row-major array over a new buffer, whose element at the k-th subscript tuple of the new
  shape is the view's element at the k-th subscript tuple of the old shape, both in
  row-major order; otherwise the result is the same buffer under a new row-major layout.
\<close>

theorem reshape_behaviour:
  assumes "\<not> empty_arr arr" and "0 < numel (hdr_dims (arr_hdr arr))"
    and "hdr_count (arr_hdr arr) = numel (hdr_dims (arr_hdr arr))"
    and "arr_buffsp arr = Some a" and "a < length h"
  shows "(reshape h arr new_dims z = Some (Inl invalid_argument) \<longleftrightarrow>
            hdr_count (arr_hdr arr) \<noteq> numel new_dims)
       \<and> numel new_dims =
            (if new_dims \<noteq> [] \<and> (\<forall>d\<in>set new_dims. 0 < d) then prod_list new_dims else 0)
       \<and> (hdr_count (arr_hdr arr) = numel new_dims \<and> hdr_dims (arr_hdr arr) = new_dims \<longrightarrow>
            reshape h arr new_dims z = Some (Inr (arr, h)))
       \<and> (hdr_count (arr_hdr arr) = numel new_dims \<and> hdr_dims (arr_hdr arr) \<noteq> new_dims \<and>
           hdr_is_subarray (arr_hdr arr) \<longrightarrow>
            reshape h arr new_dims z =
              Some (Inr (\<lparr>arr_hdr = Array_header_dims new_dims, arr_buffsp = Some (length h)\<rparr>,
                         h @ [map (elem_at h arr) (all_subs (hdr_dims (arr_hdr arr)))])) \<and>
            (\<forall>k<nat (numel new_dims).
               elem_at (h @ [map (elem_at h arr) (all_subs (hdr_dims (arr_hdr arr)))])
                 \<lparr>arr_hdr = Array_header_dims new_dims, arr_buffsp = Some (length h)\<rparr>
                 (all_subs new_dims ! k) =
               elem_at h arr (all_subs (hdr_dims (arr_hdr arr)) ! k)))
       \<and> (hdr_count (arr_hdr arr) = numel new_dims \<and> hdr_dims (arr_hdr arr) \<noteq> new_dims \<and>
           \<not> hdr_is_subarray (arr_hdr arr) \<longrightarrow>
            reshape h arr new_dims z =
              Some (Inr (arr\<lparr>arr_hdr := Array_header_dims new_dims\<rparr>, h)))"
proof -
  let ?dims = "hdr_dims (arr_hdr arr)"
  have 2: "numel new_dims =
            (if new_dims \<noteq> [] \<and> (\<forall>d\<in>set new_dims. 0 < d) then prod_list new_dims else 0)"
    by (rule numel_eq)
  have 3: "hdr_count (arr_hdr arr) = numel new_dims \<and> ?dims = new_dims \<longrightarrow>
            reshape h arr new_dims z = Some (Inr (arr, h))"
    using assms(1) by (simp add: reshape_def)
  have 4: "hdr_count (arr_hdr arr) = numel new_dims \<and> ?dims \<noteq> new_dims \<and>
           hdr_is_subarray (arr_hdr arr) \<longrightarrow>
            reshape h arr new_dims z =
              Some (Inr (\<lparr>arr_hdr = Array_header_dims new_dims, arr_buffsp = Some (length h)\<rparr>,
                         h @ [map (elem_at h arr) (all_subs ?dims)])) \<and>
            (\<forall>k<nat (numel new_dims).
               elem_at (h @ [map (elem_at h arr) (all_subs ?dims)])
                 \<lparr>arr_hdr = Array_header_dims new_dims, arr_buffsp = Some (length h)\<rparr>
                 (all_subs new_dims ! k) =
               elem_at h arr (all_subs ?dims ! k))"
  proof (intro impI conjI allI)
    assume c: "hdr_count (arr_hdr arr) = numel new_dims \<and> ?dims \<noteq> new_dims \<and>
           hdr_is_subarray (arr_hdr arr)"
    then show "reshape h arr new_dims z =
              Some (Inr (\<lparr>arr_hdr = Array_header_dims new_dims, arr_buffsp = Some (length h)\<rparr>,
                         h @ [map (elem_at h arr) (all_subs ?dims)]))"
      using reshape_view[OF assms, of new_dims z] by simp
    fix k assume k: "k < nat (numel new_dims)"
    have posn: "0 < numel new_dims" using k by simp
    note ad = Array_dims_fresh[OF posn]
    have "k < length (all_subs ?dims)"
      using k c assms(3) length_all_subs_numel[OF assms(2)] by simp
    then show "elem_at (h @ [map (elem_at h arr) (all_subs ?dims)])
                 \<lparr>arr_hdr = Array_header_dims new_dims, arr_buffsp = Some (length h)\<rparr>
                 (all_subs new_dims ! k) =
               elem_at h arr (all_subs ?dims ! k)"
      using elem_at_fresh[of "\<lparr>arr_hdr = Array_header_dims new_dims, arr_buffsp = Some (length h)\<rparr>"
          h "replicate (length new_dims) 0" k "map (elem_at h arr) (all_subs ?dims)"] k posn
      by (simp add: ad)
  qed
  have 5: "hdr_count (arr_hdr arr) = numel new_dims \<and> ?dims \<noteq> new_dims \<and>
           \<not> hdr_is_subarray (arr_hdr arr) \<longrightarrow>
            reshape h arr new_dims z =
              Some (Inr (arr\<lparr>arr_hdr := Array_header_dims new_dims\<rparr>, h))"
  proof
    assume c: "hdr_count (arr_hdr arr) = numel new_dims \<and> ?dims \<noteq> new_dims \<and>
           \<not> hdr_is_subarray (arr_hdr arr)"
    then have posn: "0 < numel new_dims" using assms(2,3) by simp
    show "reshape h arr new_dims z = Some (Inr (arr\<lparr>arr_hdr := Array_header_dims new_dims\<rparr>, h))"
      using assms(1) c Array_dims_fresh(5)[OF posn]
      by (simp add: reshape_def hdr_empty_def Let_def)
  qed
  have 1: "reshape h arr new_dims z = Some (Inl invalid_argument) \<longleftrightarrow>
            hdr_count (arr_hdr arr) \<noteq> numel new_dims"
  proof
    assume "reshape h arr new_dims z = Some (Inl invalid_argument)"
    then show "hdr_count (arr_hdr arr) \<noteq> numel new_dims"
      using 3 4 5 by (cases "?dims = new_dims"; cases "hdr_is_subarray (arr_hdr arr)") auto
  next
    assume "hdr_count (arr_hdr arr) \<noteq> numel new_dims"
    then show "reshape h arr new_dims z = Some (Inl invalid_argument)"
      using assms(1) by (simp add: reshape_def)
  qed
  from 1 2 3 4 5 show ?thesis by blast
qed

text \<open>
  The requested shape \<open>{-2, -3}\<close> has the product 6, the count of the array, and \<open>reshape\<close>
  throws all the same.
\<close>

theorem reshape_product_counterexample:
  "\<not> (reshape [[1, 2, 3, 4, 5, 6 :: int]]
          \<lparr>arr_hdr = Array_header_dims [6], arr_buffsp = Some 0\<rparr> [- 2, - 3] 0
         = Some (Inl invalid_argument)
       \<longleftrightarrow> hdr_count (arr_hdr \<lparr>arr_hdr = Array_header_dims [6], arr_buffsp = Some 0\<rparr>)
             \<noteq> prod_list [- 2, - 3])"
  by code_simp

text \<open>
  The array \<open>{3, 1, 2}\<close> over \<open>1..6\<close>: the same shape gives the array back, \<open>{2, 3}\<close> gives the
  same buffer under a new layout, \<open>{4}\<close> throws; its view of the elements 4 and 6, reshaped
  to \<open>{1, 2}\<close>, is copied into a new buffer.
\<close>

theorem reshape_behaviour_witness:
  "reshape [[1, 2, 3, 4, 5, 6 :: int]]
      \<lparr>arr_hdr = Array_header_dims [3, 1, 2], arr_buffsp = Some 0\<rparr> [3, 1, 2] 0
     = Some (Inr (\<lparr>arr_hdr = Array_header_dims [3, 1, 2], arr_buffsp = Some 0\<rparr>,
                  [[1, 2, 3, 4, 5, 6]]))
   \<and> reshape [[1, 2, 3, 4, 5, 6 :: int]]
      \<lparr>arr_hdr = Array_header_dims [3, 1, 2], arr_buffsp = Some 0\<rparr> [2, 3] 0
     = Some (Inr (\<lparr>arr_hdr = Array_header_dims [2, 3], arr_buffsp = Some 0\<rparr>,
                  [[1, 2, 3, 4, 5, 6]]))
   \<and> reshape [[1, 2, 3, 4, 5, 6 :: int]]
      \<lparr>arr_hdr = Array_header_dims [3, 1, 2], arr_buffsp = Some 0\<rparr> [4] 0
     = Some (Inl invalid_argument)
   \<and> reshape [[1, 2, 3, 4, 5, 6 :: int]]
      \<lparr>arr_hdr = \<lparr>hdr_dims = [2, 1, 1], hdr_strides = [2, 2, 2], hdr_usable = True,
                  hdr_count = 2, hdr_offset = 3, hdr_is_subarray = True\<rparr>,
       arr_buffsp = Some 0\<rparr> [1, 2] 0
     = Some (Inr (\<lparr>arr_hdr = Array_header_dims [1, 2], arr_buffsp = Some 1\<rparr>,
                  [[1, 2, 3, 4, 5, 6], [4, 6]]))"
proof -
  let ?h = "[[1, 2, 3, 4, 5, 6 :: int]]"
  let ?A = "\<lparr>arr_hdr = Array_header_dims [3, 1, 2], arr_buffsp = Some 0\<rparr>"
  let ?V = "\<lparr>arr_hdr = \<lparr>hdr_dims = [2, 1, 1], hdr_strides = [2, 2, 2], hdr_usable = True,
                  hdr_count = 2, hdr_offset = 3, hdr_is_subarray = True\<rparr>,
            arr_buffsp = Some 0\<rparr>"
  have pa: "\<not> empty_arr ?A" "0 < numel (hdr_dims (arr_hdr ?A))"
    "hdr_count (arr_hdr ?A) = numel (hdr_dims (arr_hdr ?A))" "arr_buffsp ?A = Some 0"
    "0 < length ?h"
    by code_simp+
  have pv: "\<not> empty_arr ?V" "0 < numel (hdr_dims (arr_hdr ?V))"
    "hdr_count (arr_hdr ?V) = numel (hdr_dims (arr_hdr ?V))" "arr_buffsp ?V = Some 0"
    by code_simp+
  have c1: "hdr_count (arr_hdr ?A) = numel [3, 1, 2] \<and> hdr_dims (arr_hdr ?A) = [3, 1, 2]"
    by code_simp
  have c2: "hdr_count (arr_hdr ?A) = numel [2, 3] \<and> hdr_dims (arr_hdr ?A) \<noteq> [2, 3] \<and>
            \<not> hdr_is_subarray (arr_hdr ?A)"
    by code_simp
  have c3: "hdr_count (arr_hdr ?A) \<noteq> numel [4]" by code_simp
  have c4: "hdr_count (arr_hdr ?V) = numel [1, 2] \<and> hdr_dims (arr_hdr ?V) \<noteq> [1, 2] \<and>
            hdr_is_subarray (arr_hdr ?V)"
    by code_simp
  have e4: "map (elem_at ?h ?V) (all_subs (hdr_dims (arr_hdr ?V))) = [4, 6]" "length ?h = 1"
    by code_simp+
  have u: "?A\<lparr>arr_hdr := Array_header_dims [2, 3]\<rparr> =
           \<lparr>arr_hdr = Array_header_dims [2, 3], arr_buffsp = Some 0\<rparr>"
    by simp
  from reshape_behaviour[OF pa, of "[3, 1, 2]" 0] c1
  have r1: "reshape ?h ?A [3, 1, 2] 0 = Some (Inr (?A, ?h))" by blast
  from reshape_behaviour[OF pa, of "[2, 3]" 0] c2
  have r2: "reshape ?h ?A [2, 3] 0 = Some (Inr (?A\<lparr>arr_hdr := Array_header_dims [2, 3]\<rparr>, ?h))"
    by blast
  from reshape_behaviour[OF pa, of "[4]" 0] c3
  have r3: "reshape ?h ?A [4] 0 = Some (Inl invalid_argument)" by blast
  from reshape_behaviour[OF pv pa(5), of "[1, 2]" 0] c4
  have r4: "reshape ?h ?V [1, 2] 0 =
      Some (Inr (\<lparr>arr_hdr = Array_header_dims [1, 2], arr_buffsp = Some (length ?h)\<rparr>,
                 ?h @ [map (elem_at ?h ?V) (all_subs (hdr_dims (arr_hdr ?V)))]))"
    by blast
  show ?thesis using r1 r2 r3 r4 unfolding e4 u by simp
qed

lemma filter_upt_range:
  "a \<le> b \<Longrightarrow> b \<le> n \<Longrightarrow> filter (\<lambda>i. a \<le> i \<and> i < b) [0..<n] = [a..<b]"
proof (induction n arbitrary: b)
  case 0
  then show ?case by simp
next
  case (Suc n)
  show ?case
  proof (cases "b \<le> n")
    case True
    with Suc.IH[OF Suc.prems(1) True] show ?thesis by simp
  next
    case False
    then have b: "b = Suc n" using Suc.prems by simp
    have "filter (\<lambda>i. a \<le> i \<and> i < Suc n) [0..<n] = filter (\<lambda>i. a \<le> i \<and> i < n) [0..<n]"
      by (rule filter_cong) auto
    also have "\<dots> = [a..<n]"
    proof (cases "a \<le> n")
      case True
      then show ?thesis using Suc.IH[of n] by simp
    next
      case False
      then show ?thesis by (auto simp: filter_empty_conv)
    qed
    finally show ?thesis using Suc.prems by (auto simp: b)
  qed
qed

lemma concat_map_if:
  "concat (map (\<lambda>i. if R i then B i else []) xs) = concat (map B (filter R xs))"
  by (induction xs) auto

lemma filter_concat_map:
  "filter Q (concat (map B xs)) = concat (map (\<lambda>i. filter Q (B i)) xs)"
  by (induction xs) auto

lemma all_subs_slab:
  "fa < length ds \<Longrightarrow> 0 \<le> lo \<Longrightarrow> lo \<le> hi \<Longrightarrow> hi \<le> ds ! fa \<Longrightarrow>
   filter (\<lambda>s. lo \<le> s ! fa \<and> s ! fa < hi) (all_subs ds) =
   map (\<lambda>s. s[fa := s ! fa + lo]) (all_subs (ds[fa := hi - lo]))"
proof (induction fa arbitrary: ds)
  case 0
  then obtain d ds' where ds: "ds = d # ds'" by (cases ds) auto
  let ?Y = "all_subs ds'"
  let ?B = "\<lambda>i. map ((#) (int i)) ?Y"
  have hi: "hi \<le> d" using 0 ds by simp
  have "filter (\<lambda>s. lo \<le> s ! 0 \<and> s ! 0 < hi) (all_subs ds) =
        concat (map (\<lambda>i. filter (\<lambda>s. lo \<le> s ! 0 \<and> s ! 0 < hi) (?B i)) [0..<nat d])"
    by (simp add: ds filter_concat_map)
  also have "\<dots> = concat (map (\<lambda>i. if nat lo \<le> i \<and> i < nat hi then ?B i else []) [0..<nat d])"
  proof -
    have c: "\<And>i. (lo \<le> int i \<and> int i < hi) = (nat lo \<le> i \<and> i < nat hi)"
      using 0(2,3) by auto
    have "\<And>i. filter (\<lambda>s. lo \<le> s ! 0 \<and> s ! 0 < hi) (?B i) =
               (if nat lo \<le> i \<and> i < nat hi then ?B i else [])"
      by (simp add: filter_map o_def c)
    then show ?thesis by simp
  qed
  also have "\<dots> = concat (map ?B [nat lo..<nat hi])"
    using filter_upt_range[of "nat lo" "nat hi" "nat d"] 0(2,3) hi
    by (simp add: concat_map_if)
  also have "[nat lo..<nat hi] = map (\<lambda>j. j + nat lo) [0..<nat (hi - lo)]"
    using 0(2,3) map_add_upt[of "nat lo" "nat (hi - lo)"] by (simp add: nat_diff_distrib)
  also have "concat (map ?B (map (\<lambda>j. j + nat lo) [0..<nat (hi - lo)])) =
             map (\<lambda>s. s[0 := s ! 0 + lo]) (all_subs (ds[0 := hi - lo]))"
    using 0(2) by (simp add: ds map_concat o_def)
  finally show ?case .
next
  case (Suc f)
  then obtain d ds' where ds: "ds = d # ds'" by (cases ds) auto
  have f: "f < length ds'" "hi \<le> ds' ! f" using Suc.prems ds by auto
  note ih = Suc.IH[OF f(1) Suc.prems(2,3) f(2)]
  have "filter (\<lambda>s. lo \<le> s ! Suc f \<and> s ! Suc f < hi) (all_subs ds) =
        concat (map (\<lambda>i. map ((#) (int i))
                  (filter (\<lambda>s. lo \<le> s ! f \<and> s ! f < hi) (all_subs ds'))) [0..<nat d])"
    by (simp add: ds filter_concat_map filter_map o_def)
  also have "\<dots> = map (\<lambda>s. s[Suc f := s ! Suc f + lo]) (all_subs (ds[Suc f := hi - lo]))"
    by (simp add: ih ds map_concat o_def)
  finally show ?case .
qed

lemma all_subs_mem:
  assumes "\<forall>d\<in>set ds. 0 \<le> d" "s \<in> set (all_subs ds)"
  shows "length s = length ds \<and> (\<forall>i<length ds. 0 \<le> s ! i \<and> s ! i < ds ! i)"
proof -
  from assms(2) obtain k where "k < length (all_subs ds)" "s = all_subs ds ! k"
    by (auto simp: in_set_conv_nth)
  with all_subs_nth[OF assms(1), of k] show ?thesis by simp
qed

lemma filter_nth_count:
  assumes "k < length xs" "P (xs ! k)"
  shows "length (filter P (take k xs)) < length (filter P xs)"
    and "filter P xs ! length (filter P (take k xs)) = xs ! k"
proof -
  have "xs = take k xs @ xs ! k # drop (Suc k) xs" using assms(1) by (simp add: id_take_nth_drop)
  then have "filter P xs = filter P (take k xs) @ xs ! k # filter P (drop (Suc k) xs)"
    using assms(2) by (metis filter.simps(2) filter_append)
  then show "length (filter P (take k xs)) < length (filter P xs)"
    and "filter P xs ! length (filter P (take k xs)) = xs ! k"
    by (simp_all add: nth_append)
qed

lemma grow_header:
  assumes pos: "0 < numel pd" and fa: "fa < length pd" and c: "0 < pd ! fa + c"
  shows "Array_header_grow pd c (int fa) =
     \<lparr>hdr_dims = pd[fa := pd ! fa + c],
      hdr_strides = compute_strides (pd[fa := pd ! fa + c]) (replicate (length pd) 0),
      hdr_usable = True, hdr_count = numel (pd[fa := pd ! fa + c]), hdr_offset = 0,
      hdr_is_subarray = False\<rparr>"
    and "0 < numel (pd[fa := pd ! fa + c])"
proof -
  have eq: "map (\<lambda>i. if int fa = int i then pd ! i + c else pd ! i) [0..<length pd] =
        pd[fa := pd ! fa + c]"
    by (rule nth_equalityI) (auto simp: nth_list_update)
  have p: "pd \<noteq> []" "\<forall>d\<in>set pd. 0 < d" using pos by (simp_all add: numel_pos_iff)
  have "\<forall>d\<in>set (pd[fa := pd ! fa + c]). 0 < d"
    using p(2) c by (auto dest!: set_update_subset_insert[THEN subsetD])
  then show n: "0 < numel (pd[fa := pd ! fa + c])" using p(1) by (simp add: numel_pos_iff)
  show "Array_header_grow pd c (int fa) =
     \<lparr>hdr_dims = pd[fa := pd ! fa + c],
      hdr_strides = compute_strides (pd[fa := pd ! fa + c]) (replicate (length pd) 0),
      hdr_usable = True, hdr_count = numel (pd[fa := pd ! fa + c]), hdr_offset = 0,
      hdr_is_subarray = False\<rparr>"
    using pos n unfolding Array_header_grow_def Let_def eq by simp
qed

lemma append_split:
  assumes pos: "0 < numel ld" "0 < numel rd" and len: "length ld = length rd"
    and fa: "fa < length ld"
    and agree: "\<forall>i<length ld. i \<noteq> fa \<longrightarrow> ld ! i = rd ! i"
  shows "filter (\<lambda>s. s ! fa < ld ! fa) (all_subs (ld[fa := ld ! fa + rd ! fa])) = all_subs ld"
    and "filter (\<lambda>s. \<not> s ! fa < ld ! fa) (all_subs (ld[fa := ld ! fa + rd ! fa])) =
         map (\<lambda>s. s[fa := s ! fa + ld ! fa]) (all_subs rd)"
    and "numel (ld[fa := ld ! fa + rd ! fa]) = numel ld + numel rd"
    and "0 < numel (ld[fa := ld ! fa + rd ! fa])"
proof -
  let ?l = "ld ! fa" and ?m = "rd ! fa"
  let ?xd = "ld[fa := ?l + ?m]"
  have pl: "\<forall>d\<in>set ld. 0 < d" and pr: "\<forall>d\<in>set rd. 0 < d"
    using pos by (simp_all add: numel_pos_iff)
  have l: "0 < ?l" and m: "0 < ?m" using pl pr fa len by (auto simp: all_set_conv_all_nth)
  have rd: "rd = ld[fa := ?m]"
    using len agree fa by (intro nth_equalityI) (auto simp: nth_list_update)
  have px: "\<forall>d\<in>set ?xd. 0 \<le> d"
    using pl l m by (auto dest!: set_update_subset_insert[THEN subsetD] intro: less_imp_le)
  have mem: "\<And>s. s \<in> set (all_subs ?xd) \<Longrightarrow> 0 \<le> s ! fa \<and> s ! fa < ?l + ?m"
    using all_subs_mem[OF px] fa by fastforce
  have "filter (\<lambda>s. s ! fa < ?l) (all_subs ?xd) =
        filter (\<lambda>s. 0 \<le> s ! fa \<and> s ! fa < ?l) (all_subs ?xd)"
    by (rule filter_cong) (use mem in auto)
  also have "\<dots> = map (\<lambda>s. s[fa := s ! fa + 0]) (all_subs (?xd[fa := ?l - 0]))"
    using all_subs_slab[of fa ?xd 0 ?l] fa l m by simp
  also have "\<dots> = all_subs ld" by simp
  finally show 1: "filter (\<lambda>s. s ! fa < ?l) (all_subs ?xd) = all_subs ld" .
  have "filter (\<lambda>s. \<not> s ! fa < ?l) (all_subs ?xd) =
        filter (\<lambda>s. ?l \<le> s ! fa \<and> s ! fa < ?l + ?m) (all_subs ?xd)"
    by (rule filter_cong) (use mem in auto)
  also have "\<dots> = map (\<lambda>s. s[fa := s ! fa + ?l]) (all_subs (?xd[fa := ?l + ?m - ?l]))"
    using all_subs_slab[of fa ?xd ?l "?l + ?m"] fa l m by simp
  also have "?xd[fa := ?l + ?m - ?l] = rd" using rd by simp
  finally show 2: "filter (\<lambda>s. \<not> s ! fa < ?l) (all_subs ?xd) =
         map (\<lambda>s. s[fa := s ! fa + ?l]) (all_subs rd)" .
  from grow_header(2)[OF pos(1) fa, of ?m] l m show x: "0 < numel ?xd" by simp
  have "length (all_subs ?xd) =
        length (filter (\<lambda>s. s ! fa < ?l) (all_subs ?xd)) +
        length (filter (\<lambda>s. \<not> s ! fa < ?l) (all_subs ?xd))"
    using sum_length_filter_compl[of "\<lambda>s. s ! fa < ?l" "all_subs ?xd"] by simp
  then have "nat (numel ?xd) = nat (numel ld) + nat (numel rd)"
    unfolding 1 2 using length_all_subs_numel[OF x] length_all_subs_numel[OF pos(1)]
      length_all_subs_numel[OF pos(2)] by simp
  then show "numel ?xd = numel ld + numel rd" using x pos by linarith
qed

lemma unshift_shift:
  "x = y[fa := y ! fa + (l::int)] \<Longrightarrow> fa < length y \<Longrightarrow> y = x[fa := x ! fa - l]"
  by simp

lemma append_loop_fill:
  assumes ld: "ld = hdr_dims (arr_hdr lhs)" and rd: "rd = hdr_dims (arr_hdr rhs)"
    and pos: "0 < numel ld" "0 < numel rd" and len: "length ld = length rd"
    and fa: "fa < length ld"
    and agree: "\<forall>i<length ld. i \<noteq> fa \<longrightarrow> ld ! i = rd ! i"
    and a: "arr_buffsp lhs = Some a" "a < length h"
    and b: "arr_buffsp rhs = Some b" "b < length h"
    and res: "res = \<lparr>arr_hdr = Array_header_grow ld (rd ! fa) (int fa), arr_buffsp = Some (length h)\<rparr>"
    and xd: "xd = ld[fa := ld ! fa + rd ! fa]"
    and XS: "XS = all_subs xd" and N: "N = length XS"
    and P: "P = (\<lambda>s. s ! fa < ld ! fa)"
    and G: "G = (\<lambda>j. if P (XS ! j) then elem_at h lhs (XS ! j)
                     else elem_at h rhs ((XS ! j)[fa := XS ! j ! fa - ld ! fa]))"
  shows "k \<le> N \<Longrightarrow>
     append_loop lhs rhs res fa
       ((increment ^^ length (filter P (take k XS))) (iterator_to [] ld []))
       ((increment ^^ length (filter (\<lambda>s. \<not> P s) (take k XS))) (iterator_to [] rd []))
       ((increment ^^ k) (iterator_to [] xd []))
       (h @ [map G [0..<k] @ replicate (N - k) z]) = Some (h @ [map G [0..<N]])"
proof (induction "N - k" arbitrary: k)
  case 0
  note sp = append_split[OF pos len fa agree]
  have posx: "0 < numel xd" using sp(4) xd by simp
  have "k = nat (numel xd)" using 0 N XS length_all_subs_numel[OF posx] by simp
  then show ?case using default_iterator_visit(2)[OF posx] 0 N
    by (subst append_loop.simps) simp
next
  case (Suc m')
  note sp = append_split[OF pos len fa agree]
  have posx: "0 < numel xd" using sp(4) xd by simp
  have NX: "N = nat (numel xd)" using N XS length_all_subs_numel[OF posx] by simp
  have k: "k < N" using Suc(2) by simp
  let ?x = "XS ! k"
  let ?cl = "length (filter P (take k XS))"
  let ?cr = "length (filter (\<lambda>s. \<not> P s) (take k XS))"
  let ?iL = "(increment ^^ ?cl) (iterator_to [] ld [])"
  let ?iR = "(increment ^^ ?cr) (iterator_to [] rd [])"
  let ?iX = "(increment ^^ k) (iterator_to [] xd [])"
  let ?H = "h @ [map G [0..<k] @ replicate (N - k) z]"
  let ?H' = "h @ [map G [0..<Suc k] @ replicate (N - Suc k) z]"
  from default_iterator_visit(1)[OF posx] k NX
  have vx: "in_range ?iX" "it_subs ?iX = ?x" by (auto simp: XS)
  have px: "\<forall>d\<in>set xd. 0 \<le> d" using posx by (auto simp: numel_pos_iff intro: less_imp_le)
  have xin: "?x \<in> set (all_subs xd)" using k N by (simp add: XS)
  from all_subs_mem[OF px xin]
  have xr0: "length ?x = length xd" "\<forall>i<length xd. 0 \<le> ?x ! i \<and> ?x ! i < xd ! i" by auto
  have xr: "length ?x = length ld" "?x ! fa < ld ! fa + rd ! fa"
    using xr0(1) xr0(2)[rule_format, of fa] fa by (simp_all add: xd)
  have gh: "hdr_dims (arr_hdr res) = xd" "hdr_offset (arr_hdr res) = 0"
    "hdr_strides (arr_hdr res) = compute_strides xd (replicate (length ld) 0)"
    "arr_buffsp res = Some (length h)"
  proof -
    have l: "0 < ld ! fa" and m: "0 < rd ! fa"
      using pos fa len by (auto simp: numel_pos_iff all_set_conv_all_nth)
    then have "0 < ld ! fa + rd ! fa" by simp
    from grow_header(1)[OF pos(1) fa this]
    show "hdr_dims (arr_hdr res) = xd" "hdr_offset (arr_hdr res) = 0"
      "hdr_strides (arr_hdr res) = compute_strides xd (replicate (length ld) 0)"
      "arr_buffsp res = Some (length h)"
      by (simp_all add: res xd)
  qed
  have wr: "put_at ?H res ?x (G k) = ?H'"
    using put_at_fresh[of res h "replicate (length ld) 0" k N G z] k NX posx gh
    by (simp add: XS xd)
  have tk: "take (Suc k) XS = take k XS @ [?x]" using k N by (simp add: take_Suc_conv_app_nth)
  have m': "m' = N - Suc k" using Suc(2) by simp
  have kk: "Suc k \<le> N" using k by simp
  show ?case
  proof (cases "P ?x")
    case True
    have fl: "filter P XS = all_subs ld" using sp(1) by (simp add: P XS xd)
    from filter_nth_count[of k XS P] k N True fl length_all_subs_numel[OF pos(1)]
    have cl: "?cl < nat (numel ld)" "all_subs ld ! ?cl = ?x" by auto
    from default_iterator_visit(1)[OF pos(1) cl(1)] cl(2)
    have vl: "in_range ?iL" "it_subs ?iL = ?x" by auto
    have rdv: "elem_at ?H lhs ?x = G k" using elem_at_old[OF a] True by (simp add: G)
    have br: "?x ! fa < hdr_dims (arr_hdr lhs) ! fa" using True by (simp add: P ld)
    have counts: "length (filter P (take (Suc k) XS)) = Suc ?cl"
      "length (filter (\<lambda>s. \<not> P s) (take (Suc k) XS)) = ?cr"
      using True by (simp_all add: tk)
    have "append_loop lhs rhs res fa ?iL ?iR ?iX ?H =
          append_loop lhs rhs res fa ((increment ^^ Suc ?cl) (iterator_to [] ld [])) ?iR
            ((increment ^^ Suc k) (iterator_to [] xd [])) ?H'"
      using vx vl br rdv wr by (subst append_loop.simps) (simp add: Let_def)
    then show ?thesis using Suc(1)[OF m' kk] counts by simp
  next
    case False
    have fr: "filter (\<lambda>s. \<not> P s) XS = map (\<lambda>s. s[fa := s ! fa + ld ! fa]) (all_subs rd)"
      using sp(2) by (simp add: P XS xd)
    from filter_nth_count[of k XS "\<lambda>s. \<not> P s"] k N False
    have c0: "?cr < length (filter (\<lambda>s. \<not> P s) XS)" "filter (\<lambda>s. \<not> P s) XS ! ?cr = ?x"
      by auto
    have cr: "?cr < nat (numel rd)" using c0(1) fr length_all_subs_numel[OF pos(2)] by simp
    let ?y = "all_subs rd ! ?cr"
    have xy: "?x = ?y[fa := ?y ! fa + ld ! fa]"
      using c0(2) cr length_all_subs_numel[OF pos(2)] by (simp add: fr)
    have pr: "\<forall>d\<in>set rd. 0 \<le> d" using pos(2) by (auto simp: numel_pos_iff intro: less_imp_le)
    have "?y \<in> set (all_subs rd)" using cr length_all_subs_numel[OF pos(2)] by simp
    from all_subs_mem[OF pr this] have ly: "length ?y = length rd" by simp
    have yx: "?y = ?x[fa := ?x ! fa - ld ! fa]"
      using unshift_shift[OF xy] ly fa len by simp
    from default_iterator_visit(1)[OF pos(2) cr] yx
    have vr: "in_range ?iR" "it_subs ?iR = ?x[fa := ?x ! fa - ld ! fa]" by auto
    have rdv: "elem_at ?H rhs (?x[fa := ?x ! fa - ld ! fa]) = G k"
      using elem_at_old[OF b] False by (simp add: G)
    have br: "\<not> ?x ! fa < hdr_dims (arr_hdr lhs) ! fa"
      "?x ! fa < hdr_dims (arr_hdr lhs) ! fa + hdr_dims (arr_hdr rhs) ! fa"
      using False xr(2) by (simp_all add: P ld rd)
    have counts: "length (filter P (take (Suc k) XS)) = ?cl"
      "length (filter (\<lambda>s. \<not> P s) (take (Suc k) XS)) = Suc ?cr"
      using False by (simp_all add: tk)
    have "append_loop lhs rhs res fa ?iL ?iR ?iX ?H =
          append_loop lhs rhs res fa ?iL ((increment ^^ Suc ?cr) (iterator_to [] rd []))
            ((increment ^^ Suc k) (iterator_to [] xd [])) ?H'"
      using vx vr br rdv wr by (subst append_loop.simps) (simp add: Let_def)
    then show ?thesis using Suc(1)[OF m' kk] counts by simp
  qed
qed

lemma nat_mod_lt: "0 < n \<Longrightarrow> nat (a mod int n) < n"
  using pos_mod_bound[of "int n" a] pos_mod_sign[of "int n" a] by linarith

lemma append_ok:
  assumes ne: "\<not> empty_arr lhs" "\<not> empty_arr rhs"
    and pos: "0 < numel (hdr_dims (arr_hdr lhs))" "0 < numel (hdr_dims (arr_hdr rhs))"
    and cnt: "hdr_count (arr_hdr lhs) = numel (hdr_dims (arr_hdr lhs))"
             "hdr_count (arr_hdr rhs) = numel (hdr_dims (arr_hdr rhs))"
    and a: "arr_buffsp lhs = Some a" "a < length h"
    and b: "arr_buffsp rhs = Some b" "b < length h"
    and len: "length (hdr_dims (arr_hdr lhs)) = length (hdr_dims (arr_hdr rhs))"
    and fa: "fa = nat (modulo axis (int (length (hdr_dims (arr_hdr lhs)))))"
    and agree: "\<forall>i<length (hdr_dims (arr_hdr lhs)). i \<noteq> fa \<longrightarrow>
                  hdr_dims (arr_hdr lhs) ! i = hdr_dims (arr_hdr rhs) ! i"
    and xd: "xd = (hdr_dims (arr_hdr lhs))[fa := hdr_dims (arr_hdr lhs) ! fa + hdr_dims (arr_hdr rhs) ! fa]"
    and G: "G = (\<lambda>s. if s ! fa < hdr_dims (arr_hdr lhs) ! fa then elem_at h lhs s
                     else elem_at h rhs (s[fa := s ! fa - hdr_dims (arr_hdr lhs) ! fa]))"
  shows "append h lhs rhs axis z =
     Some (Inr (\<lparr>arr_hdr = Array_header_grow (hdr_dims (arr_hdr lhs)) (hdr_dims (arr_hdr rhs) ! fa) (int fa),
                  arr_buffsp = Some (length h)\<rparr>,
                h @ [map G (all_subs xd)]))"
    and "hdr_dims (Array_header_grow (hdr_dims (arr_hdr lhs)) (hdr_dims (arr_hdr rhs) ! fa) (int fa)) = xd"
    and "hdr_usable (Array_header_grow (hdr_dims (arr_hdr lhs)) (hdr_dims (arr_hdr rhs) ! fa) (int fa))"
    and "\<forall>s\<in>set (all_subs xd).
           elem_at (h @ [map G (all_subs xd)])
             \<lparr>arr_hdr = Array_header_grow (hdr_dims (arr_hdr lhs)) (hdr_dims (arr_hdr rhs) ! fa) (int fa),
              arr_buffsp = Some (length h)\<rparr> s = G s"
proof -
  let ?ld = "hdr_dims (arr_hdr lhs)" and ?rd = "hdr_dims (arr_hdr rhs)"
  let ?nh = "Array_header_grow ?ld (?rd ! fa) (int fa)"
  let ?res = "\<lparr>arr_hdr = ?nh, arr_buffsp = Some (length h)\<rparr>"
  let ?XS = "all_subs xd"
  let ?N = "length ?XS"
  let ?P = "\<lambda>s. s ! fa < ?ld ! fa"
  let ?G' = "\<lambda>j. if ?P (?XS ! j) then elem_at h lhs (?XS ! j)
                  else elem_at h rhs ((?XS ! j)[fa := ?XS ! j ! fa - ?ld ! fa])"
  have ldne: "?ld \<noteq> []" using pos(1) by (simp add: numel_pos_iff)
  have fal: "fa < length ?ld" using ldne nat_mod_lt[of "length ?ld" axis] by (simp add: fa modulo_def)
  note sp = append_split[OF pos len fal agree]
  have posx: "0 < numel xd" using sp(4) xd by simp
  have l: "0 < ?ld ! fa" and m: "0 < ?rd ! fa"
    using pos fal len by (auto simp: numel_pos_iff all_set_conv_all_nth)
  then have lm: "0 < ?ld ! fa + ?rd ! fa" by simp
  note gh = grow_header(1)[OF pos(1) fal lm]
  show gd: "hdr_dims ?nh = xd" and gu: "hdr_usable ?nh" by (simp_all add: gh xd)
  have NX: "?N = nat (numel xd)" using length_all_subs_numel[OF posx] .
  have cs: "hdr_count (arr_hdr lhs) + hdr_count (arr_hdr rhs) = numel xd"
    using sp(3) cnt xd by simp
  have c1: "0 < numel [numel xd]" "numel [numel xd] = numel xd" using posx by (simp_all add: numel_def)
  have ad: "Array_dims h [hdr_count (arr_hdr lhs) + hdr_count (arr_hdr rhs)] z =
      (\<lparr>arr_hdr = Array_header_dims [numel xd], arr_buffsp = Some (length h)\<rparr>,
       h @ [replicate ?N z])"
    using Array_dims_fresh(1)[OF c1(1), of h z] c1(2) by (simp add: cs NX)
  have loop: "append_loop lhs rhs ?res fa (iterator_to [] ?ld []) (iterator_to [] ?rd [])
        (iterator_to [] xd []) (h @ [replicate ?N z]) = Some (h @ [map ?G' [0..<?N]])"
    using append_loop_fill[OF refl refl pos len fal agree a b refl xd refl refl refl refl, of 0 z]
    by simp
  have mg: "map ?G' [0..<?N] = map G ?XS"
    using map_nth_all_subs[OF posx, of G] by (simp add: NX G)
  have nlx: "\<not> list_ex (\<lambda>i. i \<noteq> fa \<and> ?ld ! i \<noteq> ?rd ! i) [0..<length ?ld]"
    using agree by (auto simp: list_ex_iff)
  show "append h lhs rhs axis z = Some (Inr (?res, h @ [map G ?XS]))"
    unfolding append_def Let_def fa[symmetric]
    using ne len nlx gu gd ad loop mg by (simp add: hdr_empty_def)
  show "\<forall>s\<in>set ?XS. elem_at (h @ [map G ?XS]) ?res s = G s"
  proof
    fix s assume "s \<in> set ?XS"
    then obtain k where k: "k < ?N" "s = ?XS ! k" by (auto simp: in_set_conv_nth)
    have "elem_at (h @ [map G ?XS]) ?res (all_subs (hdr_dims (arr_hdr ?res)) ! k) = map G ?XS ! k"
      using elem_at_fresh[of ?res h "replicate (length ?ld) 0" k "map G ?XS"] k(1) NX posx
      by (simp add: gh xd)
    then show "elem_at (h @ [map G ?XS]) ?res s = G s" using k gd by simp
  qed
qed

text \<open>
  C6. For two non-empty arrays of equal rank with valid layouts, \<open>append(lhs, rhs, axis)\<close>
  wraps the axis into \<open>[0, rank)\<close> (an in-range axis is kept, a negative one counts from the
  end). If the shapes differ on some other axis it throws \<open>invalid_argument\<close>. Otherwise it
  returns a new non-empty array whose dimensions are the left operand's, except that the
  wrapped axis has the sum of both extents, and whose element at every subscript tuple is
  the left operand's element at the same tuple while the subscript on the wrapped axis is
  below the left extent, and otherwise the right operand's element at the tuple with that
  subscript reduced by the left extent.
\<close>

theorem append_axis:
  assumes "\<not> empty_arr lhs" and "\<not> empty_arr rhs"
    and "0 < numel (hdr_dims (arr_hdr lhs))" and "0 < numel (hdr_dims (arr_hdr rhs))"
    and "hdr_count (arr_hdr lhs) = numel (hdr_dims (arr_hdr lhs))"
    and "hdr_count (arr_hdr rhs) = numel (hdr_dims (arr_hdr rhs))"
    and "arr_buffsp lhs = Some a" and "a < length h"
    and "arr_buffsp rhs = Some b" and "b < length h"
    and "length (hdr_dims (arr_hdr lhs)) = length (hdr_dims (arr_hdr rhs))"
    and "fa = nat (modulo axis (int (length (hdr_dims (arr_hdr lhs)))))"
  shows "fa < length (hdr_dims (arr_hdr lhs))
    \<and> (0 \<le> axis \<and> axis < int (length (hdr_dims (arr_hdr lhs))) \<longrightarrow> int fa = axis)
    \<and> (- int (length (hdr_dims (arr_hdr lhs))) \<le> axis \<and> axis < 0 \<longrightarrow>
          int fa = axis + int (length (hdr_dims (arr_hdr lhs))))
    \<and> ((\<exists>i<length (hdr_dims (arr_hdr lhs)).
            i \<noteq> fa \<and> hdr_dims (arr_hdr lhs) ! i \<noteq> hdr_dims (arr_hdr rhs) ! i) \<longrightarrow>
          append h lhs rhs axis z = Some (Inl invalid_argument))
    \<and> ((\<forall>i<length (hdr_dims (arr_hdr lhs)).
            i \<noteq> fa \<longrightarrow> hdr_dims (arr_hdr lhs) ! i = hdr_dims (arr_hdr rhs) ! i) \<longrightarrow>
          (\<exists>res h'. append h lhs rhs axis z = Some (Inr (res, h')) \<and> \<not> empty_arr res \<and>
             hdr_dims (arr_hdr res) =
               (hdr_dims (arr_hdr lhs))
                 [fa := hdr_dims (arr_hdr lhs) ! fa + hdr_dims (arr_hdr rhs) ! fa] \<and>
             (\<forall>s\<in>set (all_subs (hdr_dims (arr_hdr res))).
                elem_at h' res s =
                  (if s ! fa < hdr_dims (arr_hdr lhs) ! fa then elem_at h lhs s
                   else elem_at h rhs (s[fa := s ! fa - hdr_dims (arr_hdr lhs) ! fa])))))"
proof -
  let ?ld = "hdr_dims (arr_hdr lhs)" and ?rd = "hdr_dims (arr_hdr rhs)"
  let ?n = "length ?ld"
  have n: "0 < ?n" using assms(3) by (simp add: numel_pos_iff)
  have 1: "fa < ?n" using n nat_mod_lt[of ?n axis] by (simp add: assms(12) modulo_def)
  have 2: "0 \<le> axis \<and> axis < int ?n \<longrightarrow> int fa = axis"
    by (simp add: assms(12) modulo_def)
  have 3: "- int ?n \<le> axis \<and> axis < 0 \<longrightarrow> int fa = axis + int ?n"
  proof
    assume c: "- int ?n \<le> axis \<and> axis < 0"
    then have "axis mod int ?n = (axis + int ?n) mod int ?n" by simp
    also have "\<dots> = axis + int ?n" using c by (intro mod_pos_pos_trivial) auto
    finally show "int fa = axis + int ?n" using c by (simp add: assms(12) modulo_def)
  qed
  have 4: "(\<exists>i<?n. i \<noteq> fa \<and> ?ld ! i \<noteq> ?rd ! i) \<longrightarrow>
          append h lhs rhs axis z = Some (Inl invalid_argument)"
  proof
    assume "\<exists>i<?n. i \<noteq> fa \<and> ?ld ! i \<noteq> ?rd ! i"
    then have "list_ex (\<lambda>i. i \<noteq> fa \<and> ?ld ! i \<noteq> ?rd ! i) [0..<?n]"
      by (auto simp: list_ex_iff)
    then show "append h lhs rhs axis z = Some (Inl invalid_argument)"
      unfolding append_def Let_def assms(12)[symmetric]
      using assms(1,2,11) by simp
  qed
  have 5: "(\<forall>i<?n. i \<noteq> fa \<longrightarrow> ?ld ! i = ?rd ! i) \<longrightarrow>
          (\<exists>res h'. append h lhs rhs axis z = Some (Inr (res, h')) \<and> \<not> empty_arr res \<and>
             hdr_dims (arr_hdr res) = ?ld[fa := ?ld ! fa + ?rd ! fa] \<and>
             (\<forall>s\<in>set (all_subs (hdr_dims (arr_hdr res))).
                elem_at h' res s =
                  (if s ! fa < ?ld ! fa then elem_at h lhs s
                   else elem_at h rhs (s[fa := s ! fa - ?ld ! fa]))))"
  proof
    assume agree: "\<forall>i<?n. i \<noteq> fa \<longrightarrow> ?ld ! i = ?rd ! i"
    let ?G = "\<lambda>s. if s ! fa < ?ld ! fa then elem_at h lhs s
                  else elem_at h rhs (s[fa := s ! fa - ?ld ! fa])"
    let ?xd = "?ld[fa := ?ld ! fa + ?rd ! fa]"
    let ?res = "\<lparr>arr_hdr = Array_header_grow ?ld (?rd ! fa) (int fa), arr_buffsp = Some (length h)\<rparr>"
    note ok = append_ok[OF assms agree refl refl]
    have "\<not> empty_arr ?res" using ok(3) by (simp add: empty_arr_def hdr_empty_def)
    moreover have "hdr_dims (arr_hdr ?res) = ?xd" using ok(2) by simp
    moreover have "\<forall>s\<in>set (all_subs (hdr_dims (arr_hdr ?res))).
        elem_at (h @ [map ?G (all_subs ?xd)]) ?res s = ?G s"
      using ok(4) ok(2) by simp
    ultimately show "\<exists>res h'. append h lhs rhs axis z = Some (Inr (res, h')) \<and> \<not> empty_arr res \<and>
             hdr_dims (arr_hdr res) = ?xd \<and>
             (\<forall>s\<in>set (all_subs (hdr_dims (arr_hdr res))). elem_at h' res s = ?G s)"
      using ok(1) by blast
  qed
  from 1 2 3 4 5 show ?thesis by blast
qed

text \<open>
  Two arrays of shape \<open>{2, 2, 3}\<close> appended along the axis \<open>-2\<close>, that is axis 1: the result
  has the shape \<open>{2, 4, 3}\<close>, takes \<open>[0, 1, 2]\<close> from the left and \<open>[0, 2, 1]\<close> from the right
  operand. Along axis 0 an operand of shape \<open>{2, 3, 3}\<close> is refused.
\<close>

theorem append_axis_witness:
  "(\<exists>res h'.
      append [[1, 2, 3, 4, 5, 6, 7, 8, 9, 10, 11, 12 :: int],
              [13, 14, 15, 16, 17, 18, 19, 20, 21, 22, 23, 24]]
        \<lparr>arr_hdr = Array_header_dims [2, 2, 3], arr_buffsp = Some 0\<rparr>
        \<lparr>arr_hdr = Array_header_dims [2, 2, 3], arr_buffsp = Some 1\<rparr> (- 2) 0
        = Some (Inr (res, h')) \<and>
      hdr_dims (arr_hdr res) = [2, 4, 3] \<and>
      elem_at h' res [0, 1, 2] = 6 \<and> elem_at h' res [0, 2, 1] = 14)
   \<and> append [[1, 2, 3, 4, 5, 6, 7, 8, 9, 10, 11, 12 :: int],
              [13, 14, 15, 16, 17, 18, 19, 20, 21, 22, 23, 24]]
        \<lparr>arr_hdr = Array_header_dims [2, 2, 3], arr_buffsp = Some 0\<rparr>
        \<lparr>arr_hdr = Array_header_dims [2, 3, 2], arr_buffsp = Some 1\<rparr> 0 0
        = Some (Inl invalid_argument)"
proof -
  let ?h = "[[1, 2, 3, 4, 5, 6, 7, 8, 9, 10, 11, 12 :: int],
             [13, 14, 15, 16, 17, 18, 19, 20, 21, 22, 23, 24]]"
  let ?A = "\<lparr>arr_hdr = Array_header_dims [2, 2, 3], arr_buffsp = Some 0\<rparr>"
  let ?B = "\<lparr>arr_hdr = Array_header_dims [2, 2, 3], arr_buffsp = Some 1\<rparr>"
  let ?C = "\<lparr>arr_hdr = Array_header_dims [2, 3, 2], arr_buffsp = Some 1\<rparr>"
  have pa: "\<not> empty_arr ?A" "0 < numel (hdr_dims (arr_hdr ?A))"
    "hdr_count (arr_hdr ?A) = numel (hdr_dims (arr_hdr ?A))" "arr_buffsp ?A = Some 0"
    "0 < length ?h"
    by code_simp+
  have pb: "\<not> empty_arr ?B" "0 < numel (hdr_dims (arr_hdr ?B))"
    "hdr_count (arr_hdr ?B) = numel (hdr_dims (arr_hdr ?B))" "arr_buffsp ?B = Some 1"
    "1 < length ?h" "length (hdr_dims (arr_hdr ?A)) = length (hdr_dims (arr_hdr ?B))"
    "1 = nat (modulo (- 2) (int (length (hdr_dims (arr_hdr ?A)))))"
    by code_simp+
  have pc: "\<not> empty_arr ?C" "0 < numel (hdr_dims (arr_hdr ?C))"
    "hdr_count (arr_hdr ?C) = numel (hdr_dims (arr_hdr ?C))" "arr_buffsp ?C = Some 1"
    "length (hdr_dims (arr_hdr ?A)) = length (hdr_dims (arr_hdr ?C))"
    "0 = nat (modulo 0 (int (length (hdr_dims (arr_hdr ?A)))))"
    by code_simp+
  have ag: "\<forall>i<length (hdr_dims (arr_hdr ?A)). i \<noteq> 1 \<longrightarrow>
              hdr_dims (arr_hdr ?A) ! i = hdr_dims (arr_hdr ?B) ! i"
    by simp
  have dg: "\<exists>i<length (hdr_dims (arr_hdr ?A)). i \<noteq> 0 \<and>
              hdr_dims (arr_hdr ?A) ! i \<noteq> hdr_dims (arr_hdr ?C) ! i"
    by (rule exI[of _ 1]) code_simp
  have xd: "(hdr_dims (arr_hdr ?A))[1 := hdr_dims (arr_hdr ?A) ! 1 + hdr_dims (arr_hdr ?B) ! 1]
            = [2, 4, 3]"
    by code_simp
  have mem: "[0, 1, 2] \<in> set (all_subs [2, 4, 3])" "[0, 2, 1] \<in> set (all_subs [2, 4, 3])"
    by code_simp+
  have ev: "(if [0, 1, 2] ! 1 < hdr_dims (arr_hdr ?A) ! 1 then elem_at ?h ?A [0, 1, 2]
             else elem_at ?h ?B ([0, 1, 2][1 := [0, 1, 2] ! 1 - hdr_dims (arr_hdr ?A) ! 1])) = 6"
    "(if [0, 2, 1] ! 1 < hdr_dims (arr_hdr ?A) ! 1 then elem_at ?h ?A [0, 2, 1]
             else elem_at ?h ?B ([0, 2, 1][1 := [0, 2, 1] ! 1 - hdr_dims (arr_hdr ?A) ! 1])) = 14"
    by code_simp+
  from append_axis[OF pa(1) pb(1) pa(2) pb(2) pa(3) pb(3) pa(4,5) pb(4,5,6,7), of 0] ag
  obtain res h' where r:
    "append ?h ?A ?B (- 2) 0 = Some (Inr (res, h'))"
    "hdr_dims (arr_hdr res) =
       (hdr_dims (arr_hdr ?A))[1 := hdr_dims (arr_hdr ?A) ! 1 + hdr_dims (arr_hdr ?B) ! 1]"
    "\<forall>s\<in>set (all_subs (hdr_dims (arr_hdr res))).
        elem_at h' res s =
          (if s ! 1 < hdr_dims (arr_hdr ?A) ! 1 then elem_at ?h ?A s
           else elem_at ?h ?B (s[1 := s ! 1 - hdr_dims (arr_hdr ?A) ! 1]))"
    by blast
  have d: "hdr_dims (arr_hdr res) = [2, 4, 3]" using r(2) xd by simp
  have e1: "elem_at h' res [0, 1, 2] = 6"
    using bspec[OF r(3)[unfolded d] mem(1)] ev(1) by (rule trans)
  have e2: "elem_at h' res [0, 2, 1] = 14"
    using bspec[OF r(3)[unfolded d] mem(2)] ev(2) by (rule trans)
  from append_axis[OF pa(1) pc(1) pa(2) pc(2) pa(3) pc(3) pa(4,5) pc(4) pb(5) pc(5,6), of 0] dg
  have "append ?h ?A ?C 0 0 = Some (Inl invalid_argument)" by blast
  then show ?thesis using r(1) d e1 e2 by blast
qed

lemma map_nth_take: "a \<le> length xs \<Longrightarrow> map ((!) xs) [0..<a] = take a xs"
proof -
  assume a: "a \<le> length xs"
  have "take a xs = take a (map ((!) xs) [0..<length xs])" by (simp add: map_nth)
  also have "\<dots> = map ((!) xs) (take a [0..<length xs])" by (simp only: take_map)
  also have "take a [0..<length xs] = [0..<a]" using a by simp
  finally show ?thesis by simp
qed

lemma map_nth_drop: "map ((!) xs) [a..<length xs] = drop a xs"
proof -
  have "drop a xs = drop a (map ((!) xs) [0..<length xs])" by (simp add: map_nth)
  also have "\<dots> = map ((!) xs) (drop a [0..<length xs])" by (simp only: drop_map)
  finally show ?thesis by simp
qed

lemma map_nth_outer:
  "a < length xs \<Longrightarrow> map ((!) xs) ([0..<a] @ [Suc a..<length xs]) = outer_dims a xs"
  using map_nth_take[of a xs] map_nth_drop[of xs "Suc a"] by (simp add: outer_dims_def)

lemma outer_ins_at: "a \<le> length r \<Longrightarrow> outer_dims a (ins_at a x r) = r"
  by (simp add: outer_dims_def ins_at_def)

lemma length_ins_at: "length (ins_at a x r) = Suc (length r)"
  by (simp add: ins_at_def)

lemma ins_at_nth:
  assumes "a \<le> length r"
  shows "ins_at a x r ! a = x"
    and "i < a \<Longrightarrow> ins_at a x r ! i = r ! i"
    and "a < i \<Longrightarrow> i \<le> length r \<Longrightarrow> ins_at a x r ! i = r ! (i - 1)"
proof -
  show "ins_at a x r ! a = x" using assms by (simp add: ins_at_def nth_append)
  show "i < a \<Longrightarrow> ins_at a x r ! i = r ! i" using assms by (simp add: ins_at_def nth_append)
  assume i: "a < i" "i \<le> length r"
  then obtain j where j: "i = Suc (a + j)" using less_imp_Suc_add by blast
  show "ins_at a x r ! i = r ! (i - 1)" using assms i j by (simp add: ins_at_def nth_append)
qed

lemma outer_dims_nth:
  assumes "a < length xs"
  shows "length (outer_dims a xs) = length xs - 1"
    and "i < a \<Longrightarrow> outer_dims a xs ! i = xs ! i"
    and "a \<le> i \<Longrightarrow> Suc i < length xs \<Longrightarrow> outer_dims a xs ! i = xs ! Suc i"
proof -
  show "length (outer_dims a xs) = length xs - 1" using assms by (simp add: outer_dims_def)
  show "i < a \<Longrightarrow> outer_dims a xs ! i = xs ! i" using assms by (simp add: outer_dims_def nth_append)
  assume i: "a \<le> i" "Suc i < length xs"
  then obtain j where j: "i = a + j" using le_Suc_ex by blast
  show "outer_dims a xs ! i = xs ! Suc i" using assms i j by (simp add: outer_dims_def nth_append)
qed

lemma prod_list_outer:
  "a < length xs \<Longrightarrow> prod_list xs = xs ! a * prod_list (outer_dims a (xs :: int list))"
proof -
  assume a: "a < length xs"
  have "prod_list xs = prod_list (take a xs @ xs ! a # drop (Suc a) xs)"
    using id_take_nth_drop[OF a] by simp
  then show ?thesis by (simp add: outer_dims_def)
qed

lemma set_outer_dims: "set (outer_dims a xs) \<subseteq> set xs"
  using set_take_subset[of a xs] set_drop_subset[of "Suc a" xs] by (auto simp: outer_dims_def)

lemma iterator_to_axis_fields:
  assumes "0 < numel dims"
  shows "iterator_to_axis [] dims axis =
     \<lparr>it_nsubs = length dims, it_subs = replicate (length dims) 0,
      it_start = replicate (length dims) 0,
      it_minimum_excluded = replicate (length dims) (- 1),
      it_maximum_excluded = dims,
      it_axis = nat (modulo axis (int (length dims))), it_order = [],
      it_major_axis = (if 0 < nat (modulo axis (int (length dims))) then 0
                       else if 1 < length dims then 1 else 0)\<rparr>"
proof -
  have ne: "dims \<noteq> []" and p: "\<forall>d\<in>set dims. 0 < d" using assms by (simp_all add: numel_pos_iff)
  then have d0: "dims ! 0 \<noteq> 0" by (cases dims) auto
  have d1: "1 < length dims \<Longrightarrow> dims ! 1 \<noteq> 0"
  proof -
    assume "1 < length dims"
    then have "dims ! 1 \<in> set dims" by simp
    then show ?thesis using p by auto
  qed
  show ?thesis using ne d0 d1
    by (auto simp: iterator_to_axis_def iterator_axis_def iterator_nsubs_def iterator_bounds_def
        iterator0_def memoc_copy_def find_major_axis_def Let_def)
qed

lemma axis_order:
  assumes "a < n"
  shows "last (a # rev [Suc a..<n] @ rev [0..<a]) = (if 0 < a then 0 else if 1 < n then 1 else 0)"
    and "distinct (a # rev [Suc a..<n] @ rev [0..<a])"
    and "set (a # rev [Suc a..<n] @ rev [0..<a]) = {0..<n}"
    and "a # rev [Suc a..<n] @ rev [0..<a] = a # rev ([0..<a] @ [Suc a..<n])"
proof -
  show "last (a # rev [Suc a..<n] @ rev [0..<a]) = (if 0 < a then 0 else if 1 < n then 1 else 0)"
  proof (cases "0 < a")
    case True
    then have "rev [0..<a] \<noteq> []" by simp
    then have "last (a # rev [Suc a..<n] @ rev [0..<a]) = last (rev [0..<a])" by simp
    also have "\<dots> = 0" using True by (simp add: last_rev hd_upt)
    finally show ?thesis using True by simp
  next
    case False
    then have a: "a = 0" by simp
    show ?thesis
    proof (cases "1 < n")
      case True
      then have "rev [Suc 0..<n] \<noteq> []" by simp
      then have "last (0 # rev [Suc 0..<n]) = last (rev [Suc 0..<n])" by simp
      also have "\<dots> = 1" using True by (simp add: last_rev hd_upt)
      finally show ?thesis using a True by simp
    next
      case False
      then show ?thesis using a by simp
    qed
  qed
  show "distinct (a # rev [Suc a..<n] @ rev [0..<a])" by auto
  show "set (a # rev [Suc a..<n] @ rev [0..<a]) = {0..<n}" using assms by auto
  show "a # rev [Suc a..<n] @ rev [0..<a] = a # rev ([0..<a] @ [Suc a..<n])" by simp
qed

lemma axis_odo_cnt:
  assumes "a < length dims"
  shows "odo_cnt (a # rev [Suc a..<length dims] @ rev [0..<a]) dims = prod_list dims"
proof -
  let ?I = "[0..<a] @ [Suc a..<length dims]"
  have "odo_cnt (a # rev ?I) dims = dims ! a * prod_list (rev (map ((!) dims) ?I))"
    unfolding odo_cnt_def by (simp only: list.map prod_list.Cons rev_map)
  also have "\<dots> = dims ! a * prod_list (outer_dims a dims)"
    by (simp only: prod_list.rev map_nth_outer[OF assms])
  also have "\<dots> = prod_list dims" using prod_list_outer[OF assms] by simp
  finally show ?thesis by simp
qed

lemma axis_odo_pos:
  assumes "a < length dims" "length s = length dims"
  shows "odo_pos (a # rev [Suc a..<length dims] @ rev [0..<a]) dims s =
         s ! a + dims ! a * rm_pos (outer_dims a dims) (outer_dims a s)"
proof -
  let ?I = "[0..<a] @ [Suc a..<length dims]"
  have s: "map ((!) s) ?I = outer_dims a s"
    using map_nth_outer[of a s] assms by simp
  have "odo_pos (a # rev ?I) dims s =
        s ! a + dims ! a * rm_pos (map ((!) dims) ?I) (map ((!) s) ?I)"
    by (simp only: odo_pos.simps odo_pos_rev_rm)
  also have "\<dots> = s ! a + dims ! a * rm_pos (outer_dims a dims) (outer_dims a s)"
    by (simp only: map_nth_outer[OF assms(1)] s)
  finally show ?thesis by simp
qed

lemma set_butlast_distinct: "L \<noteq> [] \<Longrightarrow> distinct L \<Longrightarrow> set (butlast L) = set L - {last L}"
  by (induction L rule: rev_induct) auto

lemma axis_iterator_steps:
  assumes pos: "0 < numel dims" and a: "a = nat (modulo axis (int (length dims)))"
    and m: "m = (if 0 < a then 0 else if 1 < length dims then 1 else 0)"
    and k: "k \<le> nat (numel dims)"
  shows "\<exists>s. (increment ^^ k) (iterator_to_axis [] dims axis) =
               (iterator_to_axis [] dims axis)\<lparr>it_subs := s\<rparr> \<and>
             length s = length dims \<and>
             s ! a + dims ! a * rm_pos (outer_dims a dims) (outer_dims a s) = int k \<and>
             (\<forall>i<length dims. i \<noteq> m \<longrightarrow> 0 \<le> s ! i \<and> s ! i < dims ! i) \<and>
             0 \<le> s ! m \<and> s ! m \<le> dims ! m \<and>
             (int k < prod_list dims \<longleftrightarrow> s ! m < dims ! m)"
proof -
  let ?n = "length dims" and ?it0 = "iterator_to_axis [] dims axis"
  let ?L = "a # rev [Suc a..<?n] @ rev [0..<a]"
  have ne: "dims \<noteq> []" and p: "\<forall>d\<in>set dims. 0 < d" using pos by (simp_all add: numel_pos_iff)
  have n: "0 < ?n" using ne by simp
  have an: "a < ?n" using nat_mod_lt[OF n, of axis] by (simp add: a modulo_def)
  note f = iterator_to_axis_fields[OF pos, of axis, folded a]
  note o = axis_order[OF an]
  have lastL: "last ?L = m" using o(1) m by simp
  have L: "?L \<noteq> []" "distinct ?L" using o(2) by simp_all
  have mL: "m \<in> set ?L" using lastL last_in_set[OF L(1)] by simp
  have butl: "set (butlast ?L) = {0..<?n} - {m}"
    using set_butlast_distinct[OF L] lastL o(3) by simp
  have ax: "\<forall>i\<in>set ?L. i < length (it_subs ?it0) \<and> it_minimum_excluded ?it0 ! i = - 1 \<and>
               0 < it_maximum_excluded ?it0 ! i \<and> it_subs ?it0 ! i = 0"
  proof
    fix i assume "i \<in> set ?L"
    then have i: "i < ?n" using o(3) by auto
    then have "0 < dims ! i" using p by simp
    then show "i < length (it_subs ?it0) \<and> it_minimum_excluded ?it0 ! i = - 1 \<and>
               0 < it_maximum_excluded ?it0 ! i \<and> it_subs ?it0 ! i = 0"
      using i by (simp add: f)
  qed
  have inc: "\<And>s. length s = length (it_subs ?it0) \<Longrightarrow>
      increment (?it0\<lparr>it_subs := s\<rparr>) = increment_while ?L (last ?L) (?it0\<lparr>it_subs := s\<rparr>)"
    unfolding lastL by (simp add: f increment_def m)
  have cnt: "odo_cnt ?L (it_maximum_excluded ?it0) = numel dims"
    using axis_odo_cnt[OF an] pos ne p by (simp add: f numel_eq)
  have num: "numel dims = prod_list dims" using ne p by (simp add: numel_eq)
  from iterate_steps[OF L ax inc, of k] k cnt obtain s where
    s: "(increment ^^ k) ?it0 = ?it0\<lparr>it_subs := s\<rparr>" "length s = length (it_subs ?it0)"
       "odo_pos ?L (it_maximum_excluded ?it0) s = int k"
       "\<forall>i\<in>set (butlast ?L). 0 \<le> s ! i \<and> s ! i < it_maximum_excluded ?it0 ! i"
       "0 \<le> s ! last ?L" "s ! last ?L \<le> it_maximum_excluded ?it0 ! last ?L"
    by auto
  have len: "length s = ?n" using s(2) by (simp add: f)
  have mx: "it_maximum_excluded ?it0 = dims" by (simp add: f)
  have 1: "s ! a + dims ! a * rm_pos (outer_dims a dims) (outer_dims a s) = int k"
    using s(3) axis_odo_pos[OF an len] by (simp only: mx)
  have 2: "\<forall>i<?n. i \<noteq> m \<longrightarrow> 0 \<le> s ! i \<and> s ! i < dims ! i"
    using s(4) butl by (simp only: mx) auto
  have 3: "0 \<le> s ! m" "s ! m \<le> dims ! m" using s(5,6) lastL by (simp_all only: mx)
  have inner: "\<forall>i\<in>set (butlast ?L). 0 \<le> s ! i \<and> s ! i < dims ! i"
    using s(4) by (simp only: mx)
  have "odo_pos ?L dims s < odo_cnt ?L dims \<longleftrightarrow> s ! last ?L < dims ! last ?L"
    using odo_weak_lt[OF L(1) inner] s(5,6) by (simp only: mx)
  then have 4: "int k < prod_list dims \<longleftrightarrow> s ! m < dims ! m"
    using s(3) axis_odo_cnt[OF an] lastL by (simp only: mx)
  from s(1) len 1 2 3 4 show ?thesis by blast
qed

lemma axis_iterator_visit:
  assumes pos: "0 < numel dims" and a: "a = nat (modulo axis (int (length dims)))"
  shows "k < nat (numel dims) \<Longrightarrow>
           in_range ((increment ^^ k) (iterator_to_axis [] dims axis)) \<and>
           it_subs ((increment ^^ k) (iterator_to_axis [] dims axis)) =
             ins_at a (int (k mod nat (dims ! a)))
               (all_subs (outer_dims a dims) ! (k div nat (dims ! a)))"
    and "\<not> in_range ((increment ^^ nat (numel dims)) (iterator_to_axis [] dims axis))"
proof -
  let ?n = "length dims" and ?it0 = "iterator_to_axis [] dims axis"
  define m :: nat where "m = (if 0 < a then 0 else if 1 < length dims then 1 else 0)"
  let ?od = "outer_dims a dims"
  let ?L = "a # rev [Suc a..<?n] @ rev [0..<a]"
  have ne: "dims \<noteq> []" and p: "\<forall>d\<in>set dims. 0 < d" using pos by (simp_all add: numel_pos_iff)
  have n: "0 < ?n" using ne by simp
  have an: "a < ?n" using nat_mod_lt[OF n, of axis] by (simp add: a modulo_def)
  have num: "numel dims = prod_list dims" using ne p by (simp add: numel_eq)
  note f = iterator_to_axis_fields[OF pos, of axis, folded a]
  have rng: "\<And>s. in_range (?it0\<lparr>it_subs := s\<rparr>) = (s ! m < dims ! m \<and> - 1 < s ! m)"
    using n an by (simp add: f in_range_def m_def)
  have d: "0 < dims ! a" using p an by simp
  have pod: "\<forall>d\<in>set ?od. 0 \<le> d" using p set_outer_dims[of a dims] by (auto intro: less_imp_le)
  have prd: "prod_list dims = dims ! a * prod_list ?od" using prod_list_outer[OF an] .
  {
    assume k: "k < nat (numel dims)"
    then have "k \<le> nat (numel dims)" by simp
    from axis_iterator_steps[OF pos a m_def this] obtain s where
      s: "(increment ^^ k) ?it0 = ?it0\<lparr>it_subs := s\<rparr>" "length s = ?n"
         "s ! a + dims ! a * rm_pos ?od (outer_dims a s) = int k"
         "\<forall>i<?n. i \<noteq> m \<longrightarrow> 0 \<le> s ! i \<and> s ! i < dims ! i"
         "0 \<le> s ! m" "s ! m \<le> dims ! m"
         "int k < prod_list dims \<longleftrightarrow> s ! m < dims ! m"
      by blast
    have "int k < prod_list dims" using k num by simp
    then have lt: "s ! m < dims ! m" using s(7) by simp
    have strict: "\<forall>i<?n. 0 \<le> s ! i \<and> s ! i < dims ! i"
      using s(4,5) lt by metis
    let ?q = "k div nat (dims ! a)" and ?r = "k mod nat (dims ! a)"
    have "nat (numel dims) = nat (dims ! a) * nat (prod_list ?od)"
      using d nat_mult_distrib[of "dims ! a" "prod_list ?od"] by (simp add: num prd)
    then have "k < nat (prod_list ?od) * nat (dims ! a)" using k by (simp add: mult.commute)
    then have "?q < nat (prod_list ?od)" by (rule less_mult_imp_div_less)
    then have ql: "?q < length (all_subs ?od)" using length_all_subs[OF pod] by simp
    let ?o = "all_subs ?od ! ?q"
    from all_subs_nth[OF pod ql] have c:
      "length ?o = length ?od"
      "\<forall>i<length ?od. 0 \<le> ?o ! i \<and> ?o ! i < ?od ! i"
      "rm_pos ?od ?o = int ?q"
      by auto
    have lo: "length ?o = ?n - 1" using c(1) outer_dims_nth(1)[OF an] by simp
    then have alo: "a \<le> length ?o" using an by simp
    let ?c = "ins_at a (int ?r) ?o"
    have lc: "length ?c = ?n" using lo n by (simp add: length_ins_at)
    have cb: "\<forall>i<?n. 0 \<le> ?c ! i \<and> ?c ! i < dims ! i"
    proof (intro allI impI)
      fix i assume i: "i < ?n"
      consider "i = a" | "i < a" | "a < i" by linarith
      then show "0 \<le> ?c ! i \<and> ?c ! i < dims ! i"
      proof cases
        case 1
        have "int ?r < int (nat (dims ! a))" using d by (simp only: of_nat_less_iff) simp
        then show ?thesis using ins_at_nth(1)[OF alo] 1 d by simp
      next
        case 2
        then have "i < length ?od" using i an lo c(1) by simp
        then have "0 \<le> ?o ! i \<and> ?o ! i < ?od ! i" using c(2) by blast
        then show ?thesis
          using ins_at_nth(2)[OF alo 2] outer_dims_nth(2)[OF an 2] by simp
      next
        case 3
        then obtain j where j: "i = Suc j" "a \<le> j" by (cases i) auto
        then have jl: "j < length ?od" using i lo c(1) by simp
        have "?c ! i = ?o ! j" using ins_at_nth(3)[OF alo 3] i lo j by simp
        moreover have "?od ! j = dims ! i" using outer_dims_nth(3)[OF an j(2)] i j by simp
        moreover have "0 \<le> ?o ! j \<and> ?o ! j < ?od ! j" using c(2) jl by blast
        ultimately show ?thesis by simp
      qed
    qed
    have "?c ! a + dims ! a * rm_pos ?od (outer_dims a ?c) = int ?r + dims ! a * int ?q"
      using ins_at_nth(1)[OF alo] outer_ins_at[OF alo] c(3) by simp
    also have "\<dots> = int ?r + int (nat (dims ! a)) * int ?q" using d by simp
    also have "\<dots> = int (?r + nat (dims ! a) * ?q)" by (simp only: of_nat_add of_nat_mult)
    also have "\<dots> = int k" by simp
    finally have eq: "odo_pos ?L dims s = odo_pos ?L dims ?c"
      using axis_odo_pos[OF an s(2)] axis_odo_pos[OF an lc] s(3) by simp
    have setL: "set ?L = {0..<?n}" by (rule axis_order(3)[OF an])
    have sb: "\<forall>i\<in>set ?L. 0 \<le> s ! i \<and> s ! i < dims ! i"
      unfolding setL using strict by simp
    have cb': "\<forall>i\<in>set ?L. 0 \<le> ?c ! i \<and> ?c ! i < dims ! i"
      unfolding setL using cb by simp
    from odo_pos_inj[OF sb cb' eq] have "\<forall>i\<in>set ?L. s ! i = ?c ! i" .
    then have "\<forall>i<?n. s ! i = ?c ! i" unfolding setL by simp
    then have "s = ?c" using s(2) lc by (simp add: nth_equalityI)
    then have "in_range ((increment ^^ k) ?it0) \<and> it_subs ((increment ^^ k) ?it0) = ?c"
      using s(1,5) lt rng by simp
  }
  then show "k < nat (numel dims) \<Longrightarrow>
           in_range ((increment ^^ k) ?it0) \<and>
           it_subs ((increment ^^ k) ?it0) =
             ins_at a (int (k mod nat (dims ! a)))
               (all_subs (outer_dims a dims) ! (k div nat (dims ! a)))" .
  from axis_iterator_steps[OF pos a m_def le_refl] obtain s where
    s: "(increment ^^ nat (numel dims)) ?it0 = ?it0\<lparr>it_subs := s\<rparr>"
       "int (nat (numel dims)) < prod_list dims \<longleftrightarrow> s ! m < dims ! m"
    by blast
  have "\<not> int (nat (numel dims)) < prod_list dims" using pos num by simp
  then have "\<not> s ! m < dims ! m" using s(2) by simp
  then show "\<not> in_range ((increment ^^ nat (numel dims)) ?it0)"
    using s(1) rng by simp
qed

lemma reduce_cycle_steps:
  "reduce_cycle h arr func t it e =
     ((increment ^^ t) it,
      foldl (\<lambda>acc x. func x acc) e
        (map (\<lambda>i. elem_at h arr (it_subs ((increment ^^ i) it))) [0..<t]))"
proof (induction t arbitrary: it e)
  case 0
  then show ?case by simp
next
  case (Suc t)
  have "map (\<lambda>i. elem_at h arr (it_subs ((increment ^^ i) it))) [0..<Suc t] =
        elem_at h arr (it_subs it) #
        map (\<lambda>i. elem_at h arr (it_subs ((increment ^^ i) (increment it)))) [0..<t]"
    by (simp only: map_upt_Suc funpow_Suc_right o_apply funpow_0)
  moreover have "(increment ^^ Suc t) it = (increment ^^ t) (increment it)"
    by (simp only: funpow_Suc_right o_apply)
  ultimately show ?case using Suc[of "increment it"] by simp
qed

lemma omit_shape:
  assumes pos: "0 < numel dims" and a: "a = nat (modulo axis (int (length dims)))"
    and rd: "rdims = (if 1 < length dims then outer_dims a dims else [1])"
  shows "a < length dims" and "0 < dims ! a" and "0 < numel rdims"
    and "nat (numel dims) = nat (numel rdims) * nat (dims ! a)"
    and "length (all_subs (outer_dims a dims)) = nat (numel rdims)"
    and "Array_header_omit dims axis = Array_header_dims rdims"
proof -
  let ?n = "length dims" and ?od = "outer_dims a dims"
  have ne: "dims \<noteq> []" and p: "\<forall>d\<in>set dims. 0 < d" using pos by (simp_all add: numel_pos_iff)
  have n: "0 < ?n" using ne by simp
  show an: "a < ?n" using nat_mod_lt[OF n, of axis] by (simp add: a modulo_def)
  show d: "0 < dims ! a" using p an by simp
  have num: "numel dims = prod_list dims" using ne p by (simp add: numel_eq)
  have pod: "\<forall>d\<in>set ?od. 0 < d" using p set_outer_dims[of a dims] by auto
  then have pod0: "\<forall>d\<in>set ?od. 0 \<le> d" by (auto intro: less_imp_le)
  have lod: "length ?od = ?n - 1" using outer_dims_nth(1)[OF an] .
  have nr: "numel rdims = prod_list ?od"
  proof (cases "1 < ?n")
    case True
    then have "?od \<noteq> []" using lod by auto
    then show ?thesis using True pod by (simp add: rd numel_eq)
  next
    case False
    then have "?od = []" using lod n by simp
    then show ?thesis using False by (simp add: rd numel_eq)
  qed
  have ppos: "0 < prod_list ?od" using prod_list_pos[OF pod] .
  show rpos: "0 < numel rdims" using nr ppos by simp
  show "nat (numel dims) = nat (numel rdims) * nat (dims ! a)"
    using d nat_mult_distrib[of "dims ! a" "prod_list ?od"] prod_list_outer[OF an]
    by (simp add: num nr mult.commute)
  show "length (all_subs ?od) = nat (numel rdims)"
    using length_all_subs[OF pod0] nr by simp
  have "take a dims @ drop (Suc a) dims = ?od" by (simp add: outer_dims_def)
  then show "Array_header_omit dims axis = Array_header_dims rdims"
    using pos rpos lod n
    by (auto simp: Array_header_omit_def Array_header_dims_def Let_def rd a[symmetric])
qed

lemma funpow_after: "(f ^^ t) (f ((f ^^ p) x)) = (f ^^ (t + Suc p)) x"
  by (simp add: funpow_add funpow_swap1)

lemma map_shift_upt: "0 < m \<Longrightarrow> map (\<lambda>i. g (Suc i)) [0..<m - 1] = map g [1..<m]"
proof -
  assume m: "0 < m"
  have "map g [Suc 0..<Suc (m - 1)] = map g (map Suc [0..<m - 1])"
    by (simp only: map_Suc_upt)
  then show ?thesis using m by (simp add: o_def)
qed

lemma reduce_axis_loop_fill:
  assumes pos: "0 < numel dims" and dims: "dims = hdr_dims (arr_hdr arr)"
    and a: "a = nat (modulo axis (int (length dims)))"
    and dn: "dn = nat (dims ! a)"
    and rd: "rdims = (if 1 < length dims then outer_dims a dims else [1])"
    and res: "res = \<lparr>arr_hdr = Array_header_dims rdims, arr_buffsp = Some (length hb)\<rparr>"
    and M: "M = nat (numel rdims)"
    and OS: "OS = all_subs (outer_dims a dims)"
    and F: "F = (\<lambda>j. foldl (\<lambda>acc x. func x acc) (cast (elem_at h arr (ins_at a 0 (OS ! j))))
                       (map (\<lambda>i. elem_at h arr (ins_at a (int i) (OS ! j))) [1..<dn]))"
  shows "j \<le> M \<Longrightarrow>
     reduce_axis_loop h arr res func cast (dn - 1)
       ((increment ^^ (j * dn)) (iterator_to_axis [] dims axis))
       ((increment ^^ j) (iterator_to [] rdims []))
       (hb @ [map F [0..<j] @ replicate (M - j) z]) = Some (hb @ [map F [0..<M]])"
proof (induction "M - j" arbitrary: j)
  case 0
  note sh = omit_shape[OF pos a rd]
  have j: "j = M" using 0 by simp
  have "j * dn = nat (numel dims)" using sh(4) by (simp add: j M dn)
  then have "\<not> in_range ((increment ^^ (j * dn)) (iterator_to_axis [] dims axis))"
    using axis_iterator_visit(2)[OF pos a] by simp
  then show ?case using j by (subst reduce_axis_loop.simps) simp
next
  case (Suc m)
  note sh = omit_shape[OF pos a rd]
  let ?itA = "iterator_to_axis [] dims axis" and ?itR = "iterator_to [] rdims []"
  let ?X = "(increment ^^ (j * dn)) ?itA"
  let ?H = "hb @ [map F [0..<j] @ replicate (M - j) z]"
  have j: "j < M" using Suc(2) by simp
  have dn0: "0 < dn" using sh(2) by (simp add: dn)
  have tot: "nat (numel dims) = M * dn" using sh(4) by (simp add: M dn)
  have blk: "Suc j * dn \<le> M * dn" using j by (simp only: mult_le_mono1 Suc_leI)
  have inblk: "\<And>i. i < dn \<Longrightarrow>
      it_subs ((increment ^^ (j * dn + i)) ?itA) = ins_at a (int i) (OS ! j) \<and>
      in_range ((increment ^^ (j * dn + i)) ?itA)"
  proof -
    fix i assume i: "i < dn"
    then have "j * dn + i < Suc j * dn" by simp
    then have k: "j * dn + i < nat (numel dims)" using blk tot by simp
    have "(j * dn + i) mod dn = i" "(j * dn + i) div dn = j" using i by simp_all
    then show "it_subs ((increment ^^ (j * dn + i)) ?itA) = ins_at a (int i) (OS ! j) \<and>
      in_range ((increment ^^ (j * dn + i)) ?itA)"
      using axis_iterator_visit(1)[OF pos a k] by (simp add: dn[symmetric] OS)
  qed
  from inblk[OF dn0] have vA: "in_range ?X" "it_subs ?X = ins_at a 0 (OS ! j)" by simp_all
  from default_iterator_visit(1)[OF sh(3), of j] j M
  have vR: "in_range ((increment ^^ j) ?itR)" "it_subs ((increment ^^ j) ?itR) = all_subs rdims ! j"
    by auto
  have inner: "map (\<lambda>i. elem_at h arr (it_subs ((increment ^^ i) (increment ?X)))) [0..<dn - 1] =
               map (\<lambda>i. elem_at h arr (ins_at a (int i) (OS ! j))) [1..<dn]"
  proof -
    have "map (\<lambda>i. elem_at h arr (it_subs ((increment ^^ i) (increment ?X)))) [0..<dn - 1] =
          map (\<lambda>i. elem_at h arr (ins_at a (int (Suc i)) (OS ! j))) [0..<dn - 1]"
    proof (rule map_cong[OF refl])
      fix i assume "i \<in> set [0..<dn - 1]"
      then have i: "Suc i < dn" by simp
      have "(increment ^^ i) (increment ?X) = (increment ^^ (j * dn + Suc i)) ?itA"
        by (simp add: funpow_add funpow_swap1 add.commute)
      then show "elem_at h arr (it_subs ((increment ^^ i) (increment ?X))) =
                 elem_at h arr (ins_at a (int (Suc i)) (OS ! j))"
        using inblk[OF i] by simp
    qed
    also have "\<dots> = map (\<lambda>i. elem_at h arr (ins_at a (int i) (OS ! j))) [1..<dn]"
      by (rule map_shift_upt[OF dn0, of "\<lambda>i. elem_at h arr (ins_at a (int i) (OS ! j))"])
    finally show ?thesis .
  qed
  have nxt: "(increment ^^ (dn - 1)) (increment ?X) = (increment ^^ (Suc j * dn)) ?itA"
  proof -
    have e: "dn - 1 + Suc (j * dn) = Suc j * dn" using dn0 by simp
    show ?thesis by (simp only: funpow_after e)
  qed
  have cyc: "reduce_cycle h arr func (dn - 1) (increment ?X) (cast (elem_at h arr (it_subs ?X))) =
             ((increment ^^ (Suc j * dn)) ?itA, F j)"
    using reduce_cycle_steps[of h arr func "dn - 1" "increment ?X"] inner nxt vA(2)
    by (simp add: F)
  note ad = Array_dims_fresh[OF sh(3)]
  have wr: "put_at ?H res (all_subs rdims ! j) (F j) =
            hb @ [map F [0..<Suc j] @ replicate (M - Suc j) z]"
    using put_at_fresh[of res hb "replicate (length rdims) 0" j M F z] j M sh(3)
    by (simp add: res ad)
  have m: "m = M - Suc j" using Suc(2) by simp
  have "reduce_axis_loop h arr res func cast (dn - 1) ?X ((increment ^^ j) ?itR) ?H =
        reduce_axis_loop h arr res func cast (dn - 1) ((increment ^^ (Suc j * dn)) ?itA)
          ((increment ^^ Suc j) ?itR) (hb @ [map F [0..<Suc j] @ replicate (M - Suc j) z])"
    using vA(1) vR cyc wr by (subst reduce_axis_loop.simps) simp
  then show ?case using Suc(1)[OF m] j by simp
qed

lemma reduce_axis_ok:
  assumes ne: "\<not> empty_arr arr" and pos: "0 < numel (hdr_dims (arr_hdr arr))"
    and a: "a = nat (modulo axis (int (length (hdr_dims (arr_hdr arr)))))"
    and rd: "rdims = (if 1 < length (hdr_dims (arr_hdr arr))
                      then outer_dims a (hdr_dims (arr_hdr arr)) else [1])"
  shows "reduce_axis h hb arr func cast axis z =
     Some (\<lparr>arr_hdr = Array_header_dims rdims, arr_buffsp = Some (length hb)\<rparr>,
           hb @ [map (\<lambda>r. foldl (\<lambda>acc x. func x acc) (cast (elem_at h arr (ins_at a 0 r)))
                           (map (\<lambda>i. elem_at h arr (ins_at a (int i) r))
                              [1..<nat (hdr_dims (arr_hdr arr) ! a)]))
                   (all_subs (outer_dims a (hdr_dims (arr_hdr arr))))])"
proof -
  let ?dims = "hdr_dims (arr_hdr arr)"
  let ?OS = "all_subs (outer_dims a ?dims)"
  let ?dn = "nat (?dims ! a)"
  let ?M = "nat (numel rdims)"
  let ?G = "\<lambda>r. foldl (\<lambda>acc x. func x acc) (cast (elem_at h arr (ins_at a 0 r)))
                  (map (\<lambda>i. elem_at h arr (ins_at a (int i) r)) [1..<?dn])"
  let ?F = "\<lambda>j. ?G (?OS ! j)"
  let ?res = "\<lparr>arr_hdr = Array_header_dims rdims, arr_buffsp = Some (length hb)\<rparr>"
  note sh = omit_shape[OF pos a rd]
  note ad = Array_dims_fresh[OF sh(3)]
  have c1: "0 < numel [numel rdims]" using sh(3) by (simp add: numel_eq)
  have c2: "numel [numel rdims] = numel rdims" using sh(3) by (simp add: numel_eq)
  have al: "Array_dims hb [numel rdims] z =
      (\<lparr>arr_hdr = Array_header_dims [numel rdims], arr_buffsp = Some (length hb)\<rparr>,
       hb @ [replicate ?M z])"
    using Array_dims_fresh(1)[OF c1, of hb z] by (simp only: c2)
  have loop: "reduce_axis_loop h arr ?res func cast (?dn - 1)
       (iterator_to_axis [] ?dims axis) (iterator_to [] rdims [])
       (hb @ [replicate ?M z]) = Some (hb @ [map ?F [0..<?M]])"
    using reduce_axis_loop_fill[OF pos refl a refl rd refl refl refl refl,
        where j = 0 and h = h and func = func and cast = cast and hb = hb and z = z]
    by simp
  have "map ?F [0..<?M] = map ?G (map ((!) ?OS) [0..<length ?OS])"
    using sh(5) by simp
  also have "\<dots> = map ?G ?OS" by (simp only: map_nth)
  finally have mf: "map ?F [0..<?M] = map ?G ?OS" .
  have cyc: "nat (?dims ! a - 1) = ?dn - 1" by simp
  have ne': "\<not> hdr_empty (Array_header_dims rdims)" using ad(5) by (simp add: hdr_empty_def)
  show ?thesis
    unfolding reduce_axis_def Let_def a[symmetric] sh(6)
    using ne ne' al loop mf cyc by (simp add: ad)
qed

lemma elem_at_fresh_all:
  assumes pos: "0 < numel rdims"
  shows "k < length (all_subs rdims) \<Longrightarrow>
         elem_at (hb @ [buf]) \<lparr>arr_hdr = Array_header_dims rdims, arr_buffsp = Some (length hb)\<rparr>
           (all_subs rdims ! k) = buf ! k"
proof -
  let ?res = "\<lparr>arr_hdr = Array_header_dims rdims, arr_buffsp = Some (length hb)\<rparr>"
  note ad = Array_dims_fresh[OF pos]
  assume "k < length (all_subs rdims)"
  then have k: "k < nat (numel rdims)" using length_all_subs_numel[OF pos] by simp
  show ?thesis
    using elem_at_fresh[of ?res hb "replicate (length rdims) 0" k buf] k pos
    by (simp add: ad)
qed

text \<open>
  C4, as the code has it. For a non-empty array with a valid shape, \<open>reduce(arr, func, axis)\<close>
  wraps the axis into \<open>[0, rank)\<close> by the Euclidean modulo: an axis of \<open>rank\<close> or more is
  taken modulo the rank, so that \<open>axis = rank\<close> reduces along the first axis and not along
  the last one. The call returns a new non-empty row-major array whose shape is the array's
  shape with the wrapped axis taken out, or \<open>{1}\<close> for a one-dimensional array. Its buffer
  holds, in row-major order of the remaining subscripts, the folds along the wrapped axis:
  a fold starts from the value at subscript 0 on that axis, cast to the result type, and
  takes in the values at the subscripts 1, 2, ... below the extent of the axis, each by
  \<open>func(element, accumulator)\<close>. The k-th subscript tuple of the result shape reads the k-th
  of these folds.
\<close>

theorem reduce_axis_fold:
  assumes "\<not> empty_arr arr" and "0 < numel (hdr_dims (arr_hdr arr))"
    and "a = nat (modulo axis (int (length (hdr_dims (arr_hdr arr)))))"
    and "rdims = (if 1 < length (hdr_dims (arr_hdr arr))
                  then outer_dims a (hdr_dims (arr_hdr arr)) else [1])"
    and "res = \<lparr>arr_hdr = Array_header_dims rdims, arr_buffsp = Some (length hb)\<rparr>"
    and "G = (\<lambda>r. foldl (\<lambda>acc x. func x acc) (cast (elem_at h arr (ins_at a 0 r)))
                    (map (\<lambda>i. elem_at h arr (ins_at a (int i) r))
                       [1..<nat (hdr_dims (arr_hdr arr) ! a)]))"
    and "OS = all_subs (outer_dims a (hdr_dims (arr_hdr arr)))"
  shows "a < length (hdr_dims (arr_hdr arr))
    \<and> int a = axis mod int (length (hdr_dims (arr_hdr arr)))
    \<and> reduce_axis h hb arr func cast axis z = Some (res, hb @ [map G OS])
    \<and> \<not> empty_arr res \<and> hdr_dims (arr_hdr res) = rdims
    \<and> length OS = length (all_subs rdims)
    \<and> (\<forall>k<length OS. elem_at (hb @ [map G OS]) res (all_subs rdims ! k) = G (OS ! k))"
proof -
  let ?dims = "hdr_dims (arr_hdr arr)"
  note sh = omit_shape[OF assms(2,3,4)]
  note ad = Array_dims_fresh[OF sh(3)]
  have 1: "a < length ?dims" using sh(1) .
  have "?dims \<noteq> []" using assms(2) by (simp add: numel_pos_iff)
  then have "0 < int (length ?dims)" by simp
  then have "0 \<le> axis mod int (length ?dims)" by (rule pos_mod_sign)
  then have 2: "int a = axis mod int (length ?dims)"
    by (simp add: assms(3) modulo_def)
  have 3: "reduce_axis h hb arr func cast axis z = Some (res, hb @ [map G OS])"
    using reduce_axis_ok[OF assms(1,2,3,4), of h hb func cast z]
    by (simp only: assms(5,6,7))
  have 4: "\<not> empty_arr res" using ad(5) by (simp add: assms(5) empty_arr_def hdr_empty_def)
  have 5: "hdr_dims (arr_hdr res) = rdims" using ad(2) by (simp add: assms(5))
  have 6: "length OS = length (all_subs rdims)"
    using sh(5) length_all_subs_numel[OF sh(3)] by (simp add: assms(7))
  have 7: "\<forall>k<length OS. elem_at (hb @ [map G OS]) res (all_subs rdims ! k) = G (OS ! k)"
  proof (intro allI impI)
    fix k assume k: "k < length OS"
    then have "k < length (all_subs rdims)" using 6 by simp
    from elem_at_fresh_all[OF sh(3) this, of hb "map G OS"] k
    show "elem_at (hb @ [map G OS]) res (all_subs rdims ! k) = G (OS ! k)"
      by (simp add: assms(5))
  qed
  from 1 2 3 4 5 6 7 show ?thesis by blast
qed

text \<open>
  The array of shape \<open>{2, 3}\<close> over \<open>1..6\<close>, summed with the axis 2, which is its rank: the
  result is the sum along axis 0, of shape \<open>{3}\<close>, and not the sum along the last axis, of
  shape \<open>{2}\<close>.
\<close>

theorem reduce_axis_rank_counterexample:
  "reduce_axis [[1, 2, 3, 4, 5, 6 :: int]] ([] :: int store)
      \<lparr>arr_hdr = Array_header_dims [2, 3], arr_buffsp = Some 0\<rparr> (+) id 2 0
     = Some (\<lparr>arr_hdr = Array_header_dims [3], arr_buffsp = Some 0\<rparr>, [[5, 7, 9]])
   \<and> reduce_axis [[1, 2, 3, 4, 5, 6 :: int]] ([] :: int store)
      \<lparr>arr_hdr = Array_header_dims [2, 3], arr_buffsp = Some 0\<rparr> (+) id 1 0
     = Some (\<lparr>arr_hdr = Array_header_dims [2], arr_buffsp = Some 0\<rparr>, [[6, 15]])
   \<and> reduce_axis [[1, 2, 3, 4, 5, 6 :: int]] ([] :: int store)
      \<lparr>arr_hdr = Array_header_dims [2, 3], arr_buffsp = Some 0\<rparr> (+) id 2 0
     \<noteq> reduce_axis [[1, 2, 3, 4, 5, 6 :: int]] ([] :: int store)
      \<lparr>arr_hdr = Array_header_dims [2, 3], arr_buffsp = Some 0\<rparr> (+) id 1 0"
  by code_simp

text \<open>
  The array of shape \<open>{3, 1, 2}\<close> over \<open>1..6\<close>, reduced with the axis 3, which wraps to
  axis 0, by the function that appends the element to the accumulator: the result has the
  shape \<open>{1, 2}\<close> and holds \<open>[1, 3, 5]\<close> and \<open>[2, 4, 6]\<close>, the second at the subscripts
  \<open>{0, 1}\<close>.
\<close>

theorem reduce_axis_fold_witness:
  "reduce_axis [[1, 2, 3, 4, 5, 6 :: int]] []
      \<lparr>arr_hdr = Array_header_dims [3, 1, 2], arr_buffsp = Some 0\<rparr>
      (\<lambda>v p. p @ [v]) (\<lambda>v. [v]) 3 []
     = Some (\<lparr>arr_hdr = Array_header_dims [1, 2], arr_buffsp = Some 0\<rparr>,
             [[[1, 3, 5], [2, 4, 6]]])
   \<and> elem_at [[[1, 3, 5], [2, 4, 6 :: int]]]
        \<lparr>arr_hdr = Array_header_dims [1, 2], arr_buffsp = Some 0\<rparr> [0, 1] = [2, 4, 6]"
proof -
  let ?h = "[[1, 2, 3, 4, 5, 6 :: int]]"
  let ?A = "\<lparr>arr_hdr = Array_header_dims [3, 1, 2], arr_buffsp = Some 0\<rparr>"
  let ?f = "\<lambda>(v :: int) p. p @ [v]" and ?c = "\<lambda>v :: int. [v]"
  let ?G = "\<lambda>r. foldl (\<lambda>acc x. ?f x acc) (?c (elem_at ?h ?A (ins_at 0 0 r)))
                  (map (\<lambda>i. elem_at ?h ?A (ins_at 0 (int i) r))
                     [1..<nat (hdr_dims (arr_hdr ?A) ! 0)])"
  let ?OS = "all_subs (outer_dims 0 (hdr_dims (arr_hdr ?A)))"
  let ?res = "\<lparr>arr_hdr = Array_header_dims [1, 2],
               arr_buffsp = Some (length ([] :: int list store))\<rparr>"
  have pa: "\<not> empty_arr ?A" "0 < numel (hdr_dims (arr_hdr ?A))"
    "0 = nat (modulo 3 (int (length (hdr_dims (arr_hdr ?A)))))"
    "[1, 2] = (if 1 < length (hdr_dims (arr_hdr ?A))
               then outer_dims 0 (hdr_dims (arr_hdr ?A)) else [1])"
    by code_simp+
  have e: "map ?G ?OS = [[1, 3, 5], [2, 4, 6]]" by code_simp
  have k: "1 < length ?OS" "all_subs [1, 2] ! 1 = [0, 1]" "?G (?OS ! 1) = [2, 4, 6]"
    by code_simp+
  note t = reduce_axis_fold[OF pa refl refl refl,
      where h = ?h and hb = "[]" and func = ?f and cast = ?c and z = "[]"]
  from t have r1: "reduce_axis ?h [] ?A ?f ?c 3 [] = Some (?res, [] @ [map ?G ?OS])"
    by (elim conjE)
  from t have r2: "\<forall>k<length ?OS.
      elem_at ([] @ [map ?G ?OS]) ?res (all_subs [1, 2] ! k) = ?G (?OS ! k)"
    by (elim conjE)
  from r2 k(1) have "elem_at ([] @ [map ?G ?OS]) ?res (all_subs [1, 2] ! 1) = ?G (?OS ! 1)"
    by blast
  then show ?thesis using r1 unfolding e k(2) k(3) by simp
qed

end
